theory Spec2Isabelle
  imports Complex_Main "HOL-Library.Sublist"
begin

section \<open>Price conversion of the ingestor (index.js, \<open>sqrtPriceX96ToPrice\<close>)\<close>



section \<open>Execution price of the second pass (fix2.js, \<open>calculateExecutionPrice\<close>)\<close>


definition is_digit :: "char \<Rightarrow> bool" where
  "is_digit c = (48 \<le> (of_char c :: nat) \<and> (of_char c :: nat) \<le> 57)"



text \<open>White space of \<open>String.prototype.trim\<close>, \<open>parseFloat\<close> and the regular
  expression class \<open>\s\<close>, among the characters below 256: tab, line feed, vertical tab,
  form feed, carriage return, space and the no-break space.\<close>

definition js_ws :: "char \<Rightarrow> bool" where
  "js_ws c = (of_char c \<in> {9, 10, 11, 12, 13, 32, 160 :: nat})"









section \<open>RPC management (index.js, class \<open>RPCManager\<close>)\<close>

text \<open>
  The manager's fields are a record. A provider is identified with the URL it is bound
  to (\<open>provider._getConnection().url\<close>); \<open>None\<close> is \<open>null\<close>. The set \<open>failedRpcs\<close>
  is a set of URLs. Times are milliseconds, as \<open>Date.now()\<close> gives them.
\<close>

record rpc_manager =
  rpcUrls :: "string list"
  currentIndex :: nat
  failedRpcs :: "string set"
  provider :: "string option"
  lastFailResetTime :: int
  failResetInterval :: int

datatype error = Error (message: string)

definition new_RPCManager :: "string list \<Rightarrow> int \<Rightarrow> rpc_manager" where
  "new_RPCManager urls now =
     \<lparr>rpcUrls = urls, currentIndex = 0, failedRpcs = {}, provider = None,
      lastFailResetTime = now, failResetInterval = 10 * 60 * 1000\<rparr>"

text \<open>With an empty pool JavaScript's \<open>%\<close> gives \<open>NaN\<close> where HOL's \<open>mod\<close> gives
  a number; the index is never read then, since the probing loop makes no iteration.\<close>

definition moveToNextRpc :: "rpc_manager \<Rightarrow> rpc_manager" where
  "moveToNextRpc m = m\<lparr>currentIndex := (currentIndex m + 1) mod length (rpcUrls m)\<rparr>"

text \<open>
  The \<open>while (attempts < this.rpcUrls.length)\<close> loop of \<open>getWorkingProvider\<close>, by
  recursion on the number of attempts left. \<open>alive url\<close> says whether the probe
  \<open>getBlockNumber()\<close> on \<open>url\<close> succeeds; a URL is probed at most once in a call, since
  a failed probe puts it into \<open>failedRpcs\<close>. The result \<open>None\<close> is the loop's exit
  without a provider. The index is below the length of the pool in every state the
  constructor and \<open>moveToNextRpc\<close> produce.
\<close>

fun probe_loop :: "(string \<Rightarrow> bool) \<Rightarrow> nat \<Rightarrow> rpc_manager \<Rightarrow> string option \<times> rpc_manager" where
  "probe_loop alive 0 m = (None, m)"
| "probe_loop alive (Suc k) m =
     (let rpcUrl = rpcUrls m ! currentIndex m in
      if rpcUrl \<notin> failedRpcs m then
        (let m1 = (if provider m = None \<or> provider m \<noteq> Some rpcUrl
                   then m\<lparr>provider := Some rpcUrl\<rparr> else m)
         in if alive rpcUrl then (Some rpcUrl, m1)
            else probe_loop alive k
                   (moveToNextRpc (m1\<lparr>failedRpcs := insert rpcUrl (failedRpcs m1)\<rparr>)))
      else probe_loop alive k (moveToNextRpc m))"

definition all_failed_message :: string where
  "all_failed_message = ''All RPCs failed! Waiting before retry...''"

definition getWorkingProvider ::
  "(string \<Rightarrow> bool) \<Rightarrow> int \<Rightarrow> rpc_manager \<Rightarrow> (error + string) \<times> rpc_manager" where
  "getWorkingProvider alive now m =
     (let m0 = (if now - lastFailResetTime m > failResetInterval m
                then m\<lparr>failedRpcs := {}, lastFailResetTime := now\<rparr> else m)
      in case probe_loop alive (length (rpcUrls m0)) m0 of
           (Some p, m1) \<Rightarrow> (Inr p, m1)
         | (None, m1) \<Rightarrow> (Inl (Error all_failed_message), m1))"

text \<open>
  The world of \<open>executeWithRetry\<close>: a clock, which only sleeping advances, and the log
  of the sleeps. The network is a function of the time and the URL: \<open>net t url\<close> is the
  outcome of a probe at time \<open>t\<close>, \<open>operation t url\<close> the outcome of the operation. No
  two calls of one kind on one URL happen at the same time, because a sleep separates
  any two attempts.
\<close>

record world =
  clock :: int
  slept :: "int list"

definition sleep :: "int \<Rightarrow> world \<Rightarrow> world" where
  "sleep ms w = w\<lparr>clock := clock w + ms, slept := slept w @ [ms]\<rparr>"

text \<open>\<open>String.prototype.includes\<close>.\<close>

definition string_includes :: "string \<Rightarrow> string \<Rightarrow> bool" where
  "string_includes s t = sublist t s"

datatype 'a outcome = Returned 'a | Undefined | Thrown error

definition mark_bound_failed :: "rpc_manager \<Rightarrow> rpc_manager" where
  "mark_bound_failed m =
     (case provider m of None \<Rightarrow> m | Some u \<Rightarrow> m\<lparr>failedRpcs := insert u (failedRpcs m)\<rparr>)"

text \<open>The body of the \<open>try\<close> block: acquire a provider, run the operation on it.\<close>

definition try_operation ::
  "(int \<Rightarrow> string \<Rightarrow> bool) \<Rightarrow> (int \<Rightarrow> string \<Rightarrow> error + 'a) \<Rightarrow> rpc_manager \<Rightarrow> world
     \<Rightarrow> (error + 'a) \<times> rpc_manager" where
  "try_operation net operation m w =
     (case getWorkingProvider (net (clock w)) (clock w) m of
        (Inl e, m1) \<Rightarrow> (Inl e, m1)
      | (Inr p, m1) \<Rightarrow> (operation (clock w) p, m1))"

text \<open>
  \<open>executeWithRetry\<close>: the \<open>for\<close> loop over \<open>attempt\<close>, and the recursive call, which
  starts the loop again at attempt 1. The function need not return (a pool that stays
  unreachable): the result \<open>None\<close> is a run that never returns. A loop that ends without
  a \<open>return\<close> (\<open>maxRetries < 1\<close>) returns \<open>undefined\<close>.
\<close>

partial_function (option) executeWithRetry_from ::
  "(int \<Rightarrow> string \<Rightarrow> bool) \<Rightarrow> (int \<Rightarrow> string \<Rightarrow> error + 'a) \<Rightarrow> int \<Rightarrow> int
     \<Rightarrow> rpc_manager \<Rightarrow> world \<Rightarrow> ('a outcome \<times> rpc_manager \<times> world) option" where
  "executeWithRetry_from net operation maxRetries attempt m w =
     (if attempt \<le> maxRetries then
        (case try_operation net operation m w of
           (Inr v, m1) \<Rightarrow> Some (Returned v, m1, w)
         | (Inl err, m1) \<Rightarrow>
             if attempt = maxRetries then
               (if string_includes (message err) ''All RPCs failed'' then
                  executeWithRetry_from net operation maxRetries 1 m1 (sleep 30000 w)
                else Some (Thrown err, m1, w))
             else
               executeWithRetry_from net operation maxRetries (attempt + 1)
                 (moveToNextRpc (mark_bound_failed m1)) (sleep (2000 * attempt) w))
      else Some (Undefined, m, w))"

definition executeWithRetry ::
  "(int \<Rightarrow> string \<Rightarrow> bool) \<Rightarrow> (int \<Rightarrow> string \<Rightarrow> error + 'a) \<Rightarrow> int
     \<Rightarrow> rpc_manager \<Rightarrow> world \<Rightarrow> ('a outcome \<times> rpc_manager \<times> world) option" where
  "executeWithRetry net operation maxRetries m w =
     executeWithRetry_from net operation maxRetries 1 m w"

declare executeWithRetry_from.simps [code]

section \<open>JSON texts (\<open>JSON.parse\<close> and \<open>JSON.stringify\<close> of the runtime)\<close>

text \<open>
  The ingestor keeps its records in a JSON file, writes it with \<open>JSON.stringify\<close> and
  validates it with \<open>JSON.parse\<close>. Both belong to the JavaScript runtime, not to the
  repository; they are modelled here after the JSON grammar (ECMA-404).

  Texts are HOL strings, so characters are the code units below 256. A number keeps its
  literal (the double it denotes is a function of the literal; floating point is not
  modelled). An object keeps its members in the order of the text, duplicates included
  (the object JavaScript builds is a function of this list). An escape \<open>\uXXXX\<close> of a
  code unit above 255 is outside the model and is rejected.
\<close>

datatype json =
    JNull
  | JBool bool
  | JNum string
  | JStr string
  | JArr "json list"
  | JObj "(string \<times> json) list"

datatype token =
    LBrack | RBrack | LBrace | RBrace | Comma | Colon
  | TStr string | TNum string | TTrue | TFalse | TNull

subsection \<open>The lexer\<close>

definition json_ws :: "char \<Rightarrow> bool" where
  "json_ws c = (of_char c \<in> {9, 10, 13, 32 :: nat})"

definition numchar :: "char \<Rightarrow> bool" where
  "numchar c = (is_digit c \<or> c = CHR ''-'' \<or> c = CHR ''+'' \<or> c = CHR ''.''
                \<or> c = CHR ''e'' \<or> c = CHR ''E'')"

definition lower :: "char \<Rightarrow> bool" where
  "lower c = (97 \<le> (of_char c :: nat) \<and> (of_char c :: nat) \<le> 122)"

definition punct :: "char \<Rightarrow> token option" where
  "punct c =
     (if c = CHR ''['' then Some LBrack
      else if c = CHR '']'' then Some RBrack
      else if c = CHR ''{'' then Some LBrace
      else if c = CHR ''}'' then Some RBrace
      else if c = CHR '','' then Some Comma
      else if c = CHR '':'' then Some Colon
      else None)"

text \<open>The number grammar:
  \<open>-? (0 | [1-9][0-9]*) (. [0-9]+)? ([eE] [+-]? [0-9]+)?\<close>.\<close>

definition digits1 :: "string \<Rightarrow> bool" where
  "digits1 s = (s \<noteq> [] \<and> (\<forall>c\<in>set s. is_digit c))"

definition valid_exp :: "string \<Rightarrow> bool" where
  "valid_exp s =
     (case s of
        [] \<Rightarrow> True
      | e # r \<Rightarrow>
          (e = CHR ''e'' \<or> e = CHR ''E'') \<and>
          (case r of
             [] \<Rightarrow> False
           | sg # r' \<Rightarrow> if sg = CHR ''+'' \<or> sg = CHR ''-'' then digits1 r' else digits1 r))"

definition valid_frac_exp :: "string \<Rightarrow> bool" where
  "valid_frac_exp s =
     (case s of
        [] \<Rightarrow> True
      | c # r \<Rightarrow>
          if c = CHR ''.'' then takeWhile is_digit r \<noteq> [] \<and> valid_exp (dropWhile is_digit r)
          else valid_exp s)"

definition valid_int_rest :: "string \<Rightarrow> bool" where
  "valid_int_rest s =
     (case s of
        [] \<Rightarrow> False
      | c # r \<Rightarrow>
          if c = CHR ''0'' then valid_frac_exp r
          else if is_digit c then valid_frac_exp (dropWhile is_digit r)
          else False)"

definition valid_number :: "string \<Rightarrow> bool" where
  "valid_number s =
     (case s of
        [] \<Rightarrow> False
      | c # r \<Rightarrow> if c = CHR ''-'' then valid_int_rest r else valid_int_rest s)"

text \<open>The body of a string literal runs to the first quote that no backslash
  precedes; \<open>split_body\<close> returns the body and the text after the closing quote.\<close>

fun split_body :: "string \<Rightarrow> (string \<times> string) option" where
  "split_body [] = None"
| "split_body [c] = (if c = CHR 0x22 then Some ([], []) else None)"
| "split_body (c # e # cs) =
     (if c = CHR 0x22 then Some ([], e # cs)
      else if c = CHR 0x5C then map_option (\<lambda>(b, r). (c # e # b, r)) (split_body cs)
      else map_option (\<lambda>(b, r). (c # b, r)) (split_body (e # cs)))"

definition hex_val :: "char \<Rightarrow> nat option" where
  "hex_val c =
     (let n = (of_char c :: nat) in
      if 48 \<le> n \<and> n \<le> 57 then Some (n - 48)
      else if 97 \<le> n \<and> n \<le> 102 then Some (n - 87)
      else if 65 \<le> n \<and> n \<le> 70 then Some (n - 55)
      else None)"

definition unescape :: "char \<Rightarrow> char option" where
  "unescape e =
     (if e = CHR 0x22 then Some (CHR 0x22)
      else if e = CHR 0x5C then Some (CHR 0x5C)
      else if e = CHR ''/'' then Some (CHR ''/'')
      else if e = CHR ''b'' then Some (CHR 0x08)
      else if e = CHR ''f'' then Some (CHR 0x0C)
      else if e = CHR ''n'' then Some (CHR 0x0A)
      else if e = CHR ''r'' then Some (CHR 0x0D)
      else if e = CHR ''t'' then Some (CHR 0x09)
      else None)"

text \<open>One character of a string body: a plain character (control characters are not
  allowed), a two-character escape, or \<open>\uXXXX\<close>.\<close>

definition decode_char :: "string \<Rightarrow> (char \<times> string) option" where
  "decode_char s =
     (case s of
        [] \<Rightarrow> None
      | c # cs \<Rightarrow>
          if c = CHR 0x5C then
            (case cs of
               [] \<Rightarrow> None
             | e # r \<Rightarrow>
                 if e = CHR ''u'' then
                   (case r of
                      h1 # h2 # h3 # h4 # r' \<Rightarrow>
                        (case (hex_val h1, hex_val h2, hex_val h3, hex_val h4) of
                           (Some a, Some b, Some c, Some d) \<Rightarrow>
                             if a = 0 \<and> b = 0 then Some (char_of (16 * c + d), r') else None
                         | _ \<Rightarrow> None)
                    | _ \<Rightarrow> None)
                 else map_option (\<lambda>d. (d, r)) (unescape e))
          else if (of_char c :: nat) < 32 then None
          else Some (c, cs))"

lemma decode_char_shorter: "decode_char s = Some (c, r) \<Longrightarrow> length r < length s"
  by (auto simp: decode_char_def split: list.splits if_splits option.splits)

function decode :: "string \<Rightarrow> string option" where
  "decode s =
     (if s = [] then Some []
      else (case decode_char s of
              None \<Rightarrow> None
            | Some (c, r) \<Rightarrow> map_option ((#) c) (decode r)))"
  by pat_completeness auto
termination
  by (relation "measure length") (auto dest: decode_char_shorter)

declare decode.simps [simp del]

lemma split_body_shorter: "split_body s = Some (b, r) \<Longrightarrow> length r < length s"
  by (induction s arbitrary: b r rule: split_body.induct) (auto split: if_splits)

definition literal :: "string \<Rightarrow> token option" where
  "literal w =
     (if w = ''true'' then Some TTrue
      else if w = ''false'' then Some TFalse
      else if w = ''null'' then Some TNull
      else None)"

function lex :: "string \<Rightarrow> token list option" where
  "lex [] = Some []"
| "lex (c # cs) =
     (if json_ws c then lex cs
      else (case punct c of
              Some t \<Rightarrow> map_option ((#) t) (lex cs)
            | None \<Rightarrow>
                if c = CHR 0x22 then
                  (case split_body cs of
                     None \<Rightarrow> None
                   | Some (b, r) \<Rightarrow>
                       (case decode b of
                          None \<Rightarrow> None
                        | Some s \<Rightarrow> map_option ((#) (TStr s)) (lex r)))
                else if is_digit c \<or> c = CHR ''-'' then
                  (if valid_number (c # takeWhile numchar cs)
                   then map_option ((#) (TNum (c # takeWhile numchar cs))) (lex (dropWhile numchar cs))
                   else None)
                else if lower c then
                  (case literal (c # takeWhile lower cs) of
                     None \<Rightarrow> None
                   | Some t \<Rightarrow> map_option ((#) t) (lex (dropWhile lower cs)))
                else None))"
  by pat_completeness auto
termination
  by (relation "measure length")
     (auto dest: split_body_shorter simp: less_Suc_eq_le length_dropWhile_le)

subsection \<open>The parser: a stack machine over the tokens\<close>

text \<open>A frame is an array or an object under construction: the elements read so far,
  or the members read so far and the key whose value is being read.\<close>

datatype frame = ArrF "json list" | ObjF "(string \<times> json) list" string

datatype pstate =
    Val "frame list"
  | ArrStart "frame list"
  | ObjStart "frame list"
  | ObjKey "(string \<times> json) list" "frame list"
  | ObjColon "(string \<times> json) list" string "frame list"
  | After json "frame list"

fun step_value :: "frame list \<Rightarrow> token \<Rightarrow> pstate option" where
  "step_value K (TStr s) = Some (After (JStr s) K)"
| "step_value K (TNum l) = Some (After (JNum l) K)"
| "step_value K TTrue = Some (After (JBool True) K)"
| "step_value K TFalse = Some (After (JBool False) K)"
| "step_value K TNull = Some (After JNull K)"
| "step_value K LBrack = Some (ArrStart K)"
| "step_value K LBrace = Some (ObjStart K)"
| "step_value K _ = None"

fun step :: "pstate \<Rightarrow> token \<Rightarrow> pstate option" where
  "step (Val K) t = step_value K t"
| "step (ArrStart K) t = (if t = RBrack then Some (After (JArr []) K) else step_value (ArrF [] # K) t)"
| "step (ObjStart K) t =
     (case t of RBrace \<Rightarrow> Some (After (JObj []) K) | TStr k \<Rightarrow> Some (ObjColon [] k K) | _ \<Rightarrow> None)"
| "step (ObjKey ms K) t = (case t of TStr k \<Rightarrow> Some (ObjColon ms k K) | _ \<Rightarrow> None)"
| "step (ObjColon ms k K) t = (if t = Colon then Some (Val (ObjF ms k # K)) else None)"
| "step (After v []) t = None"
| "step (After v (ArrF xs # K)) t =
     (if t = Comma then Some (Val (ArrF (xs @ [v]) # K))
      else if t = RBrack then Some (After (JArr (xs @ [v])) K)
      else None)"
| "step (After v (ObjF ms k # K)) t =
     (if t = Comma then Some (ObjKey (ms @ [(k, v)]) K)
      else if t = RBrace then Some (After (JObj (ms @ [(k, v)])) K)
      else None)"

fun run :: "pstate \<Rightarrow> token list \<Rightarrow> pstate option" where
  "run st [] = Some st"
| "run st (t # ts) = (case step st t of None \<Rightarrow> None | Some st' \<Rightarrow> run st' ts)"

definition parse_tokens :: "token list \<Rightarrow> json option" where
  "parse_tokens ts = (case run (Val []) ts of Some (After v []) \<Rightarrow> Some v | _ \<Rightarrow> None)"

text \<open>\<open>JSON.parse\<close>; the result \<open>None\<close> is the \<open>SyntaxError\<close> it throws.\<close>

definition JSON_parse :: "string \<Rightarrow> json option" where
  "JSON_parse s = (case lex s of None \<Rightarrow> None | Some ts \<Rightarrow> parse_tokens ts)"

subsection \<open>The printer\<close>

definition hex_digit :: "nat \<Rightarrow> char" where
  "hex_digit n = (if n < 10 then char_of (48 + n) else char_of (87 + n))"

definition escape_char :: "char \<Rightarrow> string" where
  "escape_char c =
     (if c = CHR 0x22 then [CHR 0x5C, CHR 0x22]
      else if c = CHR 0x5C then [CHR 0x5C, CHR 0x5C]
      else if c = CHR 0x08 then [CHR 0x5C, CHR ''b'']
      else if c = CHR 0x0C then [CHR 0x5C, CHR ''f'']
      else if c = CHR 0x0A then [CHR 0x5C, CHR ''n'']
      else if c = CHR 0x0D then [CHR 0x5C, CHR ''r'']
      else if c = CHR 0x09 then [CHR 0x5C, CHR ''t'']
      else if (of_char c :: nat) < 32 then
        [CHR 0x5C, CHR ''u'', CHR ''0'', CHR ''0'',
         hex_digit (of_char c div 16), hex_digit (of_char c mod 16)]
      else [c])"

definition quote :: "string \<Rightarrow> string" where
  "quote s = CHR 0x22 # concat (map escape_char s) @ [CHR 0x22]"

text \<open>\<open>JSON.stringify(value)\<close>: the compact form.\<close>

fun stringify :: "json \<Rightarrow> string"
  and stringify_elems :: "json list \<Rightarrow> string"
  and stringify_members :: "(string \<times> json) list \<Rightarrow> string" where
  "stringify JNull = ''null''"
| "stringify (JBool b) = (if b then ''true'' else ''false'')"
| "stringify (JNum l) = l"
| "stringify (JStr s) = quote s"
| "stringify (JArr vs) = ''['' @ stringify_elems vs @ '']''"
| "stringify (JObj ms) = ''{'' @ stringify_members ms @ ''}''"
| "stringify_elems [] = []"
| "stringify_elems [v] = stringify v"
| "stringify_elems (v # w # vs) = stringify v @ '','' @ stringify_elems (w # vs)"
| "stringify_members [] = []"
| "stringify_members [(k, v)] = quote k @ '':'' @ stringify v"
| "stringify_members ((k, v) # m # ms) =
     quote k @ '':'' @ stringify v @ '','' @ stringify_members (m # ms)"

text \<open>\<open>JSON.stringify(value, null, 2)\<close>: one element or member per line, indented by
  two spaces per level; \<open>ind\<close> is the indentation of the enclosing line. Empty arrays
  and objects are \<open>[]\<close> and \<open>{}\<close>.\<close>

definition newline_indent :: "nat \<Rightarrow> string" where
  "newline_indent ind = CHR 0x0A # replicate ind (CHR '' '')"

fun stringify_indent :: "nat \<Rightarrow> json \<Rightarrow> string"
  and indent_elems :: "nat \<Rightarrow> json list \<Rightarrow> string"
  and indent_members :: "nat \<Rightarrow> (string \<times> json) list \<Rightarrow> string" where
  "stringify_indent ind JNull = ''null''"
| "stringify_indent ind (JBool b) = (if b then ''true'' else ''false'')"
| "stringify_indent ind (JNum l) = l"
| "stringify_indent ind (JStr s) = quote s"
| "stringify_indent ind (JArr vs) =
     (if vs = [] then ''[]''
      else ''['' @ indent_elems (ind + 2) vs @ newline_indent ind @ '']'')"
| "stringify_indent ind (JObj ms) =
     (if ms = [] then ''{}''
      else ''{'' @ indent_members (ind + 2) ms @ newline_indent ind @ ''}'')"
| "indent_elems ind [] = []"
| "indent_elems ind [v] = newline_indent ind @ stringify_indent ind v"
| "indent_elems ind (v # w # vs) =
     newline_indent ind @ stringify_indent ind v @ '','' @ indent_elems ind (w # vs)"
| "indent_members ind [] = []"
| "indent_members ind [(k, v)] = newline_indent ind @ quote k @ '': '' @ stringify_indent ind v"
| "indent_members ind ((k, v) # m # ms) =
     newline_indent ind @ quote k @ '': '' @ stringify_indent ind v @ '','' @
     indent_members ind (m # ms)"

section \<open>File operations (index.js)\<close>

subsection \<open>Swap records\<close>

text \<open>
  The object \<open>main\<close> builds for one decoded log. Timestamps and block numbers are
  integers; \<open>price\<close> is the whole number \<open>sqrtPriceX96ToPrice\<close> returns. \<open>JSON.stringify\<close>
  prints such a number in decimal digits (for numbers below \<open>10^21\<close>).
\<close>

record swap =
  timestamp :: int
  datetime :: string
  blockNumber :: int
  txHash :: string
  sender :: string
  recipient :: string
  amount0 :: string
  amount1 :: string
  price :: int
  tick :: string

function show_digits :: "int \<Rightarrow> string" where
  "show_digits n =
     (if n < 10 then [char_of (48 + n)] else show_digits (n div 10) @ [char_of (48 + n mod 10)])"
  by pat_completeness auto
termination
  by (relation "measure nat") auto

declare show_digits.simps [simp del]

definition show_int :: "int \<Rightarrow> string" where
  "show_int i = (if i < 0 then CHR ''-'' # show_digits (- i) else show_digits i)"

definition swap_json :: "swap \<Rightarrow> json" where
  "swap_json s =
     JObj [(''timestamp'', JNum (show_int (timestamp s))),
           (''datetime'', JStr (datetime s)),
           (''blockNumber'', JNum (show_int (blockNumber s))),
           (''txHash'', JStr (txHash s)),
           (''sender'', JStr (sender s)),
           (''recipient'', JStr (recipient s)),
           (''amount0'', JStr (amount0 s)),
           (''amount1'', JStr (amount1 s)),
           (''price'', JNum (show_int (price s))),
           (''tick'', JStr (tick s))]"

subsection \<open>The disk\<close>

text \<open>
  The three files the ingestor touches: \<open>OUTPUT_FILE\<close>, its temporary copy
  \<open>OUTPUT_FILE.temp\<close> and \<open>PROGRESS_FILE\<close>; \<open>None\<close> is a file that does not exist.
  The output file and the temporary file hold text. The progress file is written by
  \<open>saveProgress\<close> only, and \<open>loadProgress\<close> reads back what was written, so it is modelled by
  the object written; of its fields only \<open>lastProcessedBlock\<close> and \<open>totalSwaps\<close> are ever
  read (\<open>timestamp\<close>, \<open>startBlock\<close> and \<open>endBlock\<close> are left out). Reading, writing,
  renaming and unlinking do not fail in the model: the only exception inside
  \<open>appendSwapsToFile\<close> is the \<open>SyntaxError\<close> of \<open>JSON.parse\<close>.
\<close>

record progress =
  lastProcessedBlock :: int
  totalSwaps :: int

record disk =
  output_file :: "string option"
  temp_file :: "string option"
  progress_file :: "progress option"

record config =
  START_BLOCK :: int
  END_BLOCK :: int
  CHUNK_SIZE :: int

subsection \<open>String operations of the runtime\<close>

definition trim :: "string \<Rightarrow> string" where
  "trim s = rev (dropWhile js_ws (rev (dropWhile js_ws s)))"

definition endsWith :: "string \<Rightarrow> string \<Rightarrow> bool" where
  "endsWith s t = suffix t s"

text \<open>\<open>s.replace(/\s*\]$/, '')\<close>: the pattern matches only at the end of the text, and
  the leftmost match takes all the white space before the closing bracket.\<close>

definition strip_closing_bracket :: "string \<Rightarrow> string" where
  "strip_closing_bracket s =
     (if s \<noteq> [] \<and> last s = CHR '']'' then rev (dropWhile js_ws (rev (butlast s))) else s)"

text \<open>\<open>Array.prototype.join\<close>.\<close>

fun join :: "string \<Rightarrow> string list \<Rightarrow> string" where
  "join sep [] = []"
| "join sep [x] = x"
| "join sep (x # y # xs) = x @ sep @ join sep (y # xs)"

text \<open>The number of matches of \<open>/},/g\<close>.\<close>

fun count_matches :: "string \<Rightarrow> nat" where
  "count_matches (a # b # cs) =
     (if a = CHR ''}'' \<and> b = CHR '','' then Suc (count_matches cs) else count_matches (b # cs))"
| "count_matches _ = 0"

subsection \<open>The functions of index.js\<close>

definition getExistingSwapCount :: "disk \<Rightarrow> int" where
  "getExistingSwapCount d =
     (case output_file d of
        None \<Rightarrow> 0
      | Some content \<Rightarrow>
          (let data = trim content
           in if length data = 0 \<or> data = ''[]'' then 0
              else int (count_matches data) + 1))"

definition loadProgress :: "config \<Rightarrow> disk \<Rightarrow> progress" where
  "loadProgress cfg d =
     (case progress_file d of
        Some p \<Rightarrow> p
      | None \<Rightarrow> \<lparr>lastProcessedBlock = START_BLOCK cfg - 1, totalSwaps = 0\<rparr>)"

definition saveProgress :: "int \<Rightarrow> int \<Rightarrow> disk \<Rightarrow> disk" where
  "saveProgress lastProcessed swapCount d =
     d\<lparr>progress_file := Some \<lparr>lastProcessedBlock = lastProcessed, totalSwaps = swapCount\<rparr>\<rparr>"

text \<open>The text \<open>appendSwapsToFile\<close> writes to the temporary file, from the trimmed text
  of the existing file.\<close>

definition temp_text :: "string \<Rightarrow> swap list \<Rightarrow> string" where
  "temp_text trimmed newSwaps =
     (let existingData = strip_closing_bracket trimmed;
          rendered = join [CHR '','', CHR 0x0A]
                       (map (\<lambda>swap. ''  '' @ stringify (swap_json swap)) newSwaps);
          newDataString = (if endsWith (trim existingData) ''['' then rendered
                           else [CHR '','', CHR 0x0A] @ rendered)
      in existingData @ newDataString @ [CHR 0x0A, CHR '']''])"

definition appendSwapsToFile :: "swap list \<Rightarrow> disk \<Rightarrow> bool \<times> disk" where
  "appendSwapsToFile newSwaps d =
     (if length newSwaps = 0 then (True, d)
      else
        (case output_file d of
           None \<Rightarrow>
             (True, d\<lparr>output_file := Some (stringify_indent 0 (JArr (map swap_json newSwaps)))\<rparr>)
         | Some content \<Rightarrow>
             (let existingData = trim content
              in if existingData = [] \<or> existingData = ''[]'' then
                   (True, d\<lparr>output_file :=
                              Some (stringify_indent 0 (JArr (map swap_json newSwaps)))\<rparr>)
                 else
                   (let d1 = d\<lparr>temp_file := Some (temp_text existingData newSwaps)\<rparr>
                    in case JSON_parse (temp_text existingData newSwaps) of
                         Some testData \<Rightarrow>
                           (True, d1\<lparr>output_file := temp_file d1, temp_file := None\<rparr>)
                       | None \<Rightarrow> (False, d1\<lparr>temp_file := None\<rparr>)))))"

section \<open>The main loop of the ingestor (index.js, \<open>main\<close>)\<close>

text \<open>
  What \<open>main\<close> gets from the network for a chunk: the call of \<open>executeWithRetry\<close> that
  fetches the logs either throws (\<open>FetchError\<close>) or returns the logs. Each log is then
  decoded with a call of its own, which gives a record, or throws and the log is
  skipped: \<open>Logs\<close> holds one \<open>Some record\<close> or \<open>None\<close> per log. A run asks for
  each chunk at most once, so a function of the chunk's bounds describes a run.
\<close>

datatype fetch_result = FetchError | Logs "swap option list"

text \<open>The trace of a run: the start of an iteration with the chunk's bounds, the outcome
  of the fetch and of the append, the calls of \<open>saveProgress\<close> with their arguments, the
  sleeps, and the removal of the progress file.\<close>

datatype event =
    Chunk int int
  | FetchFailure
  | Appended nat
  | AppendFailure
  | Saved int int
  | Sleep int
  | Unlinked

definition decoded :: "swap option list \<Rightarrow> swap list" where
  "decoded results = [s. Some s \<leftarrow> results]"

text \<open>
  The \<open>for\<close> loop of \<open>main\<close>. The result is the trace, \<open>totalNewSwaps\<close> and the disk
  after the loop. The loop need not end (a chunk size that is not positive): \<open>None\<close> is a
  loop that runs forever.
\<close>

partial_function (option) chunk_loop ::
  "config \<Rightarrow> (int \<Rightarrow> int \<Rightarrow> fetch_result) \<Rightarrow> int \<Rightarrow> int \<Rightarrow> int \<Rightarrow> disk
     \<Rightarrow> (event list \<times> int \<times> disk) option" where
  "chunk_loop cfg fetch existingSwapCount fromBlock totalNewSwaps d =
     (if fromBlock \<le> END_BLOCK cfg then
        (let toBlock = min (fromBlock + CHUNK_SIZE cfg - 1) (END_BLOCK cfg)
         in case fetch fromBlock toBlock of
              Logs results \<Rightarrow>
                (let chunkSwaps = decoded results
                 in case appendSwapsToFile chunkSwaps d of
                      (ok, d1) \<Rightarrow>
                        if ok then
                          (let newTotal = totalNewSwaps + int (length chunkSwaps);
                               currentTotal = existingSwapCount + newTotal;
                               d2 = saveProgress toBlock currentTotal d1
                           in Option.bind
                                (chunk_loop cfg fetch existingSwapCount
                                   (fromBlock + CHUNK_SIZE cfg) newTotal d2)
                                (\<lambda>(evs, r).
                                   Some ([Chunk fromBlock toBlock, Appended (length chunkSwaps),
                                          Saved toBlock currentTotal, Sleep 100] @ evs, r)))
                        else Some ([Chunk fromBlock toBlock, AppendFailure], totalNewSwaps, d1))
            | FetchError \<Rightarrow>
                (let d1 = saveProgress (fromBlock - 1) (existingSwapCount + totalNewSwaps) d
                 in Option.bind
                      (chunk_loop cfg fetch existingSwapCount
                         (fromBlock + CHUNK_SIZE cfg) totalNewSwaps d1)
                      (\<lambda>(evs, r).
                         Some ([Chunk fromBlock toBlock, FetchFailure,
                                Saved (fromBlock - 1) (existingSwapCount + totalNewSwaps),
                                Sleep 5000] @ evs, r))))
      else Some ([], totalNewSwaps, d))"

declare chunk_loop.simps [code]

definition main :: "config \<Rightarrow> (int \<Rightarrow> int \<Rightarrow> fetch_result) \<Rightarrow> disk \<Rightarrow> (event list \<times> disk) option" where
  "main cfg fetch d =
     (let progress = loadProgress cfg d;
          existingSwapCount = getExistingSwapCount d;
          startFromBlock = max (lastProcessedBlock progress + 1) (START_BLOCK cfg)
      in case chunk_loop cfg fetch existingSwapCount startFromBlock 0 d of
           None \<Rightarrow> None
         | Some (evs, totalNewSwaps, d1) \<Rightarrow>
             (if progress_file d1 \<noteq> None
              then Some (evs @ [Unlinked], d1\<lparr>progress_file := None\<rparr>)
              else Some (evs, d1)))"

section \<open>Notions and inputs used in the statements about the RPC manager\<close>


text \<open>The pool \<open>RPC_URL\<close> of index.js.\<close>

definition RPC_URL :: "string list" where
  "RPC_URL = [''https://mainnet.infura.io/v3/56556dffb0ac4198bc99d7459f7db0ba'',
     ''https://ethereum-rpc.publicnode.com'']"

text \<open>Networks and operations for concrete runs: an outage of every endpoint that ends
  after 600000 ms; a network that is always up; a probe that always succeeds or always
  fails; an operation that always returns 7; an operation that always throws.\<close>

definition outage_net :: "int \<Rightarrow> string \<Rightarrow> bool" where
  "outage_net t u = (600000 < t)"

definition up_net :: "int \<Rightarrow> string \<Rightarrow> bool" where
  "up_net t u = True"



definition block_number_op :: "int \<Rightarrow> string \<Rightarrow> error + nat" where
  "block_number_op t u = Inr 7"

definition failing_op :: "int \<Rightarrow> string \<Rightarrow> error + nat" where
  "failing_op t u = Inl (Error ''query returned more than 10000 results'')"

definition w599 :: world where
  "w599 = \<lparr>clock = 599000, slept = []\<rparr>"


section \<open>Notions and inputs used in the statements about the ingestor\<close>

text \<open>The chunks a trace started, and the chunks it completed: appended to the output
  file and checkpointed at their last block.\<close>

fun attempted :: "event list \<Rightarrow> (int \<times> int) list" where
  "attempted [] = []"
| "attempted (Chunk f t # evs) = (f, t) # attempted evs"
| "attempted (e # evs) = attempted evs"

fun completed :: "event list \<Rightarrow> (int \<times> int) list" where
  "completed (Chunk f t # Appended n # Saved b c # evs) =
     (if b = t then (f, t) # completed evs else completed evs)"
| "completed (e # evs) = completed evs"
| "completed [] = []"

text \<open>Each range is non-empty and the next one starts right after it.\<close>

fun contiguous :: "(int \<times> int) list \<Rightarrow> bool" where
  "contiguous [] = True"
| "contiguous [(f, t)] = (f \<le> t)"
| "contiguous ((f, t) # (f', t') # rs) = (f \<le> t \<and> f' = t + 1 \<and> contiguous ((f', t') # rs))"

text \<open>The scenario of the specification, a disk with no file, and networks: one that
  returns no log for any chunk, one that fails on the chunk from block 100, and one
  that returns one log for every chunk.\<close>

definition scenario :: config where
  "scenario = \<lparr>START_BLOCK = 100, END_BLOCK = 249, CHUNK_SIZE = 50\<rparr>"

definition empty_disk :: disk where
  "empty_disk = \<lparr>output_file = None, temp_file = None, progress_file = None\<rparr>"

definition a_swap :: swap where
  "a_swap = \<lparr>timestamp = 1719792000, datetime = ''2024-07-01T00:00:00.000Z'',
     blockNumber = 150, txHash = ''0xabc'', sender = ''0x01'', recipient = ''0x02'',
     amount0 = ''-0.5'', amount1 = ''30000.0'', price = 60000, tick = ''64000''\<rparr>"

definition quiet_fetch :: "int \<Rightarrow> int \<Rightarrow> fetch_result" where
  "quiet_fetch fromBlock toBlock = Logs []"

definition failing_first_fetch :: "int \<Rightarrow> int \<Rightarrow> fetch_result" where
  "failing_first_fetch fromBlock toBlock = (if fromBlock = 100 then FetchError else Logs [])"

definition one_log_fetch :: "int \<Rightarrow> int \<Rightarrow> fetch_result" where
  "one_log_fetch fromBlock toBlock = Logs [Some (a_swap\<lparr>blockNumber := fromBlock\<rparr>)]"

text \<open>Disks for concrete runs: an output file that holds one record; an output file cut
  off in the middle of its first record, with a checkpoint at block 149.\<close>

definition small_file :: string where
  "small_file = [CHR ''['', CHR 0x0A, CHR '' '', CHR '' '', CHR ''{'', CHR 0x22, CHR ''t'', CHR ''i'',
     CHR ''c'', CHR ''k'', CHR 0x22, CHR '':'', CHR '' '', CHR 0x22, CHR ''7'', CHR 0x22, CHR ''}'',
     CHR 0x0A, CHR '']'', CHR 0x0A]"

definition one_record_disk :: disk where
  "one_record_disk = \<lparr>output_file = Some small_file, temp_file = None, progress_file = None\<rparr>"

definition cut_file :: string where
  "cut_file = [CHR ''['', CHR 0x0A, CHR '' '', CHR '' '', CHR ''{'', CHR 0x0A, CHR '' '', CHR '' '',
     CHR '' '', CHR '' '', CHR 0x22, CHR ''t'', CHR ''i'', CHR ''c'', CHR ''k'', CHR 0x22, CHR '':'',
     CHR '' '', CHR 0x22, CHR ''7'', CHR 0x22]"

definition cut_disk :: disk where
  "cut_disk = \<lparr>output_file = Some cut_file, temp_file = None,
     progress_file = Some \<lparr>lastProcessedBlock = 149, totalSwaps = 1\<rparr>\<rparr>"

definition tiny_swap :: swap where
  "tiny_swap = \<lparr>timestamp = 1, datetime = ''d'', blockNumber = 150, txHash = ''h'', sender = ''s'',
     recipient = ''r'', amount0 = ''-0.5'', amount1 = ''3.0'', price = 6, tick = ''7''\<rparr>"

definition tiny_fetch :: "int \<Rightarrow> int \<Rightarrow> fetch_result" where
  "tiny_fetch fromBlock toBlock = Logs [Some tiny_swap]"

section \<open>Notions used in the statements about JSON texts and files\<close>

text \<open>A text can follow a number or a literal when it is empty or starts with a
  character that continues neither.\<close>

definition boundary :: "string \<Rightarrow> bool" where
  "boundary q = (case q of [] \<Rightarrow> True | c # _ \<Rightarrow> \<not> numchar c \<and> \<not> lower c)"

text \<open>The tokens of a value.\<close>

fun toks :: "json \<Rightarrow> token list"
  and toks_elems :: "json list \<Rightarrow> token list"
  and toks_members :: "(string \<times> json) list \<Rightarrow> token list" where
  "toks JNull = [TNull]"
| "toks (JBool b) = [if b then TTrue else TFalse]"
| "toks (JNum l) = [TNum l]"
| "toks (JStr s) = [TStr s]"
| "toks (JArr vs) = LBrack # toks_elems vs @ [RBrack]"
| "toks (JObj ms) = LBrace # toks_members ms @ [RBrace]"
| "toks_elems [] = []"
| "toks_elems [v] = toks v"
| "toks_elems (v # w # vs) = toks v @ Comma # toks_elems (w # vs)"
| "toks_members [] = []"
| "toks_members [(k, v)] = TStr k # Colon # toks v"
| "toks_members ((k, v) # m # ms) = TStr k # Colon # toks v @ Comma # toks_members (m # ms)"

text \<open>Well-formed values: every number literal follows the number grammar.\<close>

definition wf_num :: "string \<Rightarrow> bool" where
  "wf_num l = (valid_number l \<and> (\<forall>c\<in>set l. numchar c))"

fun wf_json :: "json \<Rightarrow> bool"
  and wf_elems :: "json list \<Rightarrow> bool"
  and wf_members :: "(string \<times> json) list \<Rightarrow> bool" where
  "wf_json (JNum l) = wf_num l"
| "wf_json (JArr vs) = wf_elems vs"
| "wf_json (JObj ms) = wf_members ms"
| "wf_json _ = True"
| "wf_elems [] = True"
| "wf_elems (v # vs) = (wf_json v \<and> wf_elems vs)"
| "wf_members [] = True"
| "wf_members ((k, v) # ms) = (wf_json v \<and> wf_members ms)"

text \<open>Removing white space at the end of a text.\<close>

definition rstrip :: "string \<Rightarrow> string" where
  "rstrip x = rev (dropWhile js_ws (rev x))"

text \<open>Appending the chunks of a run one after the other, as the loop of \<open>main\<close> does:
  it stops at the first append that fails.\<close>

fun append_chunks :: "swap list list \<Rightarrow> disk \<Rightarrow> bool \<times> disk" where
  "append_chunks [] d = (True, d)"
| "append_chunks (c # cs) d =
     (case appendSwapsToFile c d of (ok, d1) \<Rightarrow> if ok then append_chunks cs d1 else (False, d1))"

text \<open>The chunk bounds the loop header of \<open>main\<close> computes, for a positive chunk
  size: \<open>fromBlock\<close> goes up by \<open>CHUNK_SIZE\<close> while it is at most \<open>END_BLOCK\<close>, and
  \<open>toBlock = min (fromBlock + CHUNK_SIZE - 1) END_BLOCK\<close>.\<close>

function chunk_ranges :: "config \<Rightarrow> int \<Rightarrow> (int \<times> int) list" where
  "chunk_ranges cfg fromBlock =
     (if fromBlock \<le> END_BLOCK cfg \<and> 0 < CHUNK_SIZE cfg
      then (fromBlock, min (fromBlock + CHUNK_SIZE cfg - 1) (END_BLOCK cfg))
             # chunk_ranges cfg (fromBlock + CHUNK_SIZE cfg)
      else [])"
  by pat_completeness auto
termination
  by (relation "measure (\<lambda>(cfg, fromBlock). nat (END_BLOCK cfg - fromBlock + 1))") auto

declare chunk_ranges.simps [simp del]

section \<open>Theorems about the price functions\<close>








section \<open>Theorems about the RPC manager\<close>

lemma probe_loop_rpcUrls [simp]: "rpcUrls (snd (probe_loop alive k m)) = rpcUrls m"
  by (induction k arbitrary: m) (auto simp: Let_def moveToNextRpc_def)












lemma outage_first_attempt:
  "try_operation outage_net block_number_op (new_RPCManager RPC_URL 0) w599 =
     (Inl (Error all_failed_message),
      (new_RPCManager RPC_URL 0)\<lparr>failedRpcs := set RPC_URL, provider := Some (RPC_URL ! 1)\<rparr>)"
  by code_simp

lemma all_failed_message_includes: "string_includes all_failed_message ''All RPCs failed''"
  by code_simp

lemma failing_first_attempt:
  "try_operation up_net failing_op (new_RPCManager RPC_URL 0) w599 =
     (Inl (Error ''query returned more than 10000 results''),
      (new_RPCManager RPC_URL 0)\<lparr>provider := Some (RPC_URL ! 0)\<rparr>)"
  by code_simp

lemma failing_message_not_includes:
  "\<not> string_includes ''query returned more than 10000 results'' ''All RPCs failed''"
  by code_simp

text \<open>
  Claim C8, as the code has it. When the attempt fails with the error \<open>err\<close> (from
  acquiring the provider or from the operation):
  before the last attempt, whatever the failure indicates, the manager marks the bound
  endpoint (if any) failed, advances the cursor, sleeps \<open>2000 * attempt\<close> ms and goes on
  with the next attempt; at the last attempt a failure that indicates total pool
  exhaustion makes it sleep 30000 ms and start again with a fresh attempt budget, and any
  other failure is propagated to the caller.
\<close>

theorem executeWithRetry_failure_handling:
  "try_operation net operation m w = (Inl err, m1) \<longrightarrow>
     (attempt < maxRetries \<longrightarrow>
        executeWithRetry_from net operation maxRetries attempt m w =
        executeWithRetry_from net operation maxRetries (attempt + 1)
          (moveToNextRpc (mark_bound_failed m1)) (sleep (2000 * attempt) w))
     \<and> (attempt = maxRetries \<and> string_includes (message err) ''All RPCs failed'' \<longrightarrow>
        executeWithRetry_from net operation maxRetries attempt m w =
        executeWithRetry net operation maxRetries m1 (sleep 30000 w))
     \<and> (attempt = maxRetries \<and> \<not> string_includes (message err) ''All RPCs failed'' \<longrightarrow>
        executeWithRetry_from net operation maxRetries attempt m w = Some (Thrown err, m1, w))"
proof (intro impI conjI)
  assume t: "try_operation net operation m w = (Inl err, m1)"
  {
    assume "attempt < maxRetries"
    then show "executeWithRetry_from net operation maxRetries attempt m w =
        executeWithRetry_from net operation maxRetries (attempt + 1)
          (moveToNextRpc (mark_bound_failed m1)) (sleep (2000 * attempt) w)"
      by (subst executeWithRetry_from.simps) (simp add: t)
  next
    assume "attempt = maxRetries \<and> string_includes (message err) ''All RPCs failed''"
    then show "executeWithRetry_from net operation maxRetries attempt m w =
        executeWithRetry net operation maxRetries m1 (sleep 30000 w)"
      by (subst executeWithRetry_from.simps) (simp add: t executeWithRetry_def)
  next
    assume "attempt = maxRetries \<and> \<not> string_includes (message err) ''All RPCs failed''"
    then show "executeWithRetry_from net operation maxRetries attempt m w = Some (Thrown err, m1, w)"
      by (subst executeWithRetry_from.simps) (simp add: t)
  }
qed

theorem executeWithRetry_failure_handling_witness:
  "try_operation outage_net block_number_op (new_RPCManager RPC_URL 0) w599 =
     (Inl (Error all_failed_message),
      (new_RPCManager RPC_URL 0)\<lparr>failedRpcs := set RPC_URL, provider := Some (RPC_URL ! 1)\<rparr>)
   \<and> (1::int) < 3
   \<and> executeWithRetry_from outage_net block_number_op 3 1 (new_RPCManager RPC_URL 0) w599 =
       executeWithRetry_from outage_net block_number_op 3 (1 + 1)
         (moveToNextRpc (mark_bound_failed
            ((new_RPCManager RPC_URL 0)\<lparr>failedRpcs := set RPC_URL, provider := Some (RPC_URL ! 1)\<rparr>)))
         (sleep (2000 * 1) w599)
   \<and> string_includes (message (Error all_failed_message)) ''All RPCs failed''
   \<and> executeWithRetry_from outage_net block_number_op 1 1 (new_RPCManager RPC_URL 0) w599 =
       executeWithRetry outage_net block_number_op 1
         ((new_RPCManager RPC_URL 0)\<lparr>failedRpcs := set RPC_URL, provider := Some (RPC_URL ! 1)\<rparr>)
         (sleep 30000 w599)
   \<and> try_operation up_net failing_op (new_RPCManager RPC_URL 0) w599 =
     (Inl (Error ''query returned more than 10000 results''),
      (new_RPCManager RPC_URL 0)\<lparr>provider := Some (RPC_URL ! 0)\<rparr>)
   \<and> \<not> string_includes (message (Error ''query returned more than 10000 results''))
         ''All RPCs failed''
   \<and> executeWithRetry_from up_net failing_op 1 1 (new_RPCManager RPC_URL 0) w599 =
       Some (Thrown (Error ''query returned more than 10000 results''),
         (new_RPCManager RPC_URL 0)\<lparr>provider := Some (RPC_URL ! 0)\<rparr>, w599)"
  using
    executeWithRetry_failure_handling [of outage_net block_number_op "new_RPCManager RPC_URL 0"
      w599 "Error all_failed_message"
      "(new_RPCManager RPC_URL 0)\<lparr>failedRpcs := set RPC_URL, provider := Some (RPC_URL ! 1)\<rparr>" 1 3]
    executeWithRetry_failure_handling [of outage_net block_number_op "new_RPCManager RPC_URL 0"
      w599 "Error all_failed_message"
      "(new_RPCManager RPC_URL 0)\<lparr>failedRpcs := set RPC_URL, provider := Some (RPC_URL ! 1)\<rparr>" 1 1]
    executeWithRetry_failure_handling [of up_net failing_op "new_RPCManager RPC_URL 0"
      w599 "Error ''query returned more than 10000 results''"
      "(new_RPCManager RPC_URL 0)\<lparr>provider := Some (RPC_URL ! 0)\<rparr>" 1 1]
    outage_first_attempt failing_first_attempt all_failed_message_includes
    failing_message_not_includes
  by simp

text \<open>
  The claim as it is written fails: in the run below the first attempt fails with the
  error of total pool exhaustion, the budget is 3 attempts, and the manager sleeps
  2000 ms (not 30000 ms) and goes on with the second attempt, which succeeds.
\<close>

theorem executeWithRetry_exhaustion_counterexample:
  "try_operation outage_net block_number_op (new_RPCManager RPC_URL 0) w599 =
     (Inl (Error all_failed_message),
      (new_RPCManager RPC_URL 0)\<lparr>failedRpcs := set RPC_URL, provider := Some (RPC_URL ! 1)\<rparr>)
   \<and> string_includes (message (Error all_failed_message)) ''All RPCs failed''
   \<and> executeWithRetry outage_net block_number_op 3 (new_RPCManager RPC_URL 0) w599 =
       Some (Returned 7,
         (new_RPCManager RPC_URL 0)\<lparr>currentIndex := 1, provider := Some (RPC_URL ! 1),
            lastFailResetTime := 601000\<rparr>,
         \<lparr>clock = 601000, slept = [2000]\<rparr>)"
proof (intro conjI)
  show "executeWithRetry outage_net block_number_op 3 (new_RPCManager RPC_URL 0) w599 =
       Some (Returned 7,
         (new_RPCManager RPC_URL 0)\<lparr>currentIndex := 1, provider := Some (RPC_URL ! 1),
            lastFailResetTime := 601000\<rparr>,
         \<lparr>clock = 601000, slept = [2000]\<rparr>)"
    by code_simp
qed (simp_all add: outage_first_attempt all_failed_message_includes)

section \<open>Theorems about JSON texts\<close>

subsection \<open>Characters, by their code points\<close>

lemma char_eq_nat: "(c = d) = ((of_char c :: nat) = of_char d)"
  by simp

lemma punct_code:
  "punct c = (if of_char c = (91::nat) then Some LBrack
      else if of_char c = (93::nat) then Some RBrack
      else if of_char c = (123::nat) then Some LBrace
      else if of_char c = (125::nat) then Some RBrace
      else if of_char c = (44::nat) then Some Comma
      else if of_char c = (58::nat) then Some Colon
      else None)"
  unfolding punct_def by (simp add: char_eq_nat [of c] del: of_char_eq_iff)

lemma numchar_code:
  "numchar c = (is_digit c \<or> of_char c \<in> {45, 43, 46, 101, 69 :: nat})"
  unfolding numchar_def by (auto simp add: char_eq_nat [of c] simp del: of_char_eq_iff)

lemma json_ws_facts:
  "json_ws c \<Longrightarrow> punct c = None" "json_ws c \<Longrightarrow> c \<noteq> CHR 0x22" "json_ws c \<Longrightarrow> \<not> numchar c"
  "json_ws c \<Longrightarrow> \<not> lower c" "json_ws c \<Longrightarrow> \<not> is_digit c" "json_ws c \<Longrightarrow> c \<noteq> CHR ''-''"
  "json_ws c \<Longrightarrow> js_ws c"
  by (auto simp add: punct_code numchar_code json_ws_def js_ws_def lower_def is_digit_def)

lemma js_ws_facts:
  "js_ws c \<Longrightarrow> punct c = None" "js_ws c \<Longrightarrow> c \<noteq> CHR 0x22" "js_ws c \<Longrightarrow> \<not> numchar c"
  "js_ws c \<Longrightarrow> \<not> lower c" "js_ws c \<Longrightarrow> \<not> is_digit c" "js_ws c \<Longrightarrow> c \<noteq> CHR ''-''"
  by (auto simp add: punct_code numchar_code js_ws_def lower_def is_digit_def)

lemma punct_facts:
  "punct c = Some t \<Longrightarrow> \<not> json_ws c" "punct c = Some t \<Longrightarrow> c \<noteq> CHR 0x22"
  "punct c = Some t \<Longrightarrow> \<not> numchar c" "punct c = Some t \<Longrightarrow> \<not> lower c"
  "punct c = Some t \<Longrightarrow> \<not> is_digit c" "punct c = Some t \<Longrightarrow> c \<noteq> CHR ''-''"
  "punct c = Some t \<Longrightarrow> \<not> js_ws c"
  by (auto simp add: punct_code numchar_code json_ws_def js_ws_def lower_def is_digit_def
      split: if_splits)

lemma punct_inj: "punct c = Some t \<Longrightarrow> punct d = Some t \<Longrightarrow> c = d"
  by (auto simp: punct_def split: if_splits)

lemma quote_facts: "\<not> numchar (CHR 0x22)" "\<not> lower (CHR 0x22)" "\<not> json_ws (CHR 0x22)"
  "punct (CHR 0x22) = None" "\<not> is_digit (CHR 0x22)" "\<not> js_ws (CHR 0x22)"
  "CHR 0x22 \<noteq> CHR ''-''"
  by (simp_all add: punct_code numchar_code json_ws_def js_ws_def lower_def is_digit_def)

lemma num_facts:
  "is_digit c \<or> c = CHR ''-'' \<Longrightarrow> \<not> json_ws c"
  "is_digit c \<or> c = CHR ''-'' \<Longrightarrow> punct c = None"
  "is_digit c \<or> c = CHR ''-'' \<Longrightarrow> c \<noteq> CHR 0x22"
  "is_digit c \<or> c = CHR ''-'' \<Longrightarrow> numchar c"
  "is_digit c \<or> c = CHR ''-'' \<Longrightarrow> \<not> lower c"
  "is_digit c \<or> c = CHR ''-'' \<Longrightarrow> \<not> js_ws c"
  by (auto simp add: punct_code numchar_code json_ws_def js_ws_def lower_def is_digit_def)

lemma lower_facts:
  "lower c \<Longrightarrow> \<not> json_ws c" "lower c \<Longrightarrow> punct c = None" "lower c \<Longrightarrow> c \<noteq> CHR 0x22"
  "lower c \<Longrightarrow> \<not> is_digit c" "lower c \<Longrightarrow> c \<noteq> CHR ''-''" "lower c \<Longrightarrow> \<not> js_ws c"
  by (auto simp add: punct_code json_ws_def js_ws_def lower_def is_digit_def)

subsection \<open>The equations of the lexer, case by case\<close>

lemma lex_ws: "json_ws c \<Longrightarrow> lex (c # cs) = lex cs"
  by simp

lemma lex_punct: "punct c = Some t \<Longrightarrow> lex (c # cs) = map_option ((#) t) (lex cs)"
  using punct_facts(1) [of c t] by simp

lemma lex_quote:
  "lex (CHR 0x22 # cs) =
     (case split_body cs of
        None \<Rightarrow> None
      | Some (b, r) \<Rightarrow>
          (case decode b of None \<Rightarrow> None | Some s \<Rightarrow> map_option ((#) (TStr s)) (lex r)))"
  using quote_facts(3,4) by simp

lemma lex_num:
  "is_digit c \<or> c = CHR ''-'' \<Longrightarrow>
   lex (c # cs) =
     (if valid_number (c # takeWhile numchar cs)
      then map_option ((#) (TNum (c # takeWhile numchar cs))) (lex (dropWhile numchar cs))
      else None)"
  using num_facts(1,2,3) [of c] by simp

lemma lex_lit:
  "lower c \<Longrightarrow>
   lex (c # cs) =
     (case literal (c # takeWhile lower cs) of
        None \<Rightarrow> None
      | Some t \<Rightarrow> map_option ((#) t) (lex (dropWhile lower cs)))"
  using lower_facts(1,2,3,4,5) [of c] by simp

lemma lex_other:
  "\<not> json_ws c \<Longrightarrow> punct c = None \<Longrightarrow> c \<noteq> CHR 0x22 \<Longrightarrow> \<not> (is_digit c \<or> c = CHR ''-'')
     \<Longrightarrow> \<not> lower c \<Longrightarrow> lex (c # cs) = None"
  by simp

lemma char_cases [case_names ws punct quote num lit other]:
  obtains "json_ws c"
  | t where "punct c = Some t"
  | "c = CHR 0x22"
  | "is_digit c \<or> c = CHR ''-''"
  | "lower c"
  | "\<not> json_ws c" "punct c = None" "c \<noteq> CHR 0x22" "\<not> (is_digit c \<or> c = CHR ''-'')" "\<not> lower c"
  by (cases "punct c") blast+

declare lex.simps(2) [simp del]


subsection \<open>String bodies\<close>

lemma split_body_decomp: "split_body s = Some (b, r) \<Longrightarrow> s = b @ CHR 0x22 # r"
  by (induction s arbitrary: b r rule: split_body.induct) (auto split: if_splits)

lemma split_body_append: "split_body s = Some (b, r) \<Longrightarrow> split_body (s @ x) = Some (b, r @ x)"
proof (induction s arbitrary: b r rule: split_body.induct)
  case 1
  then show ?case by simp
next
  case (2 c)
  then show ?case by (cases x) (auto split: if_splits)
next
  case (3 c e cs)
  then show ?case by (auto split: if_splits)
qed

lemma split_body_Cons:
  "c \<noteq> CHR 0x22 \<Longrightarrow> c \<noteq> CHR 0x5C \<Longrightarrow> xs \<noteq> [] \<Longrightarrow>
     split_body (c # xs) = map_option (\<lambda>(b, r). (c # b, r)) (split_body xs)"
  by (cases xs) auto

lemma split_body_closed:
  "split_body s = Some (b, r) \<Longrightarrow> split_body (b @ CHR 0x22 # y) = Some (b, y)"
proof (induction s arbitrary: b r rule: split_body.induct)
  case 1
  then show ?case by simp
next
  case (2 c)
  then show ?case by (cases y) (auto split: if_splits)
next
  case (3 c e cs)
  show ?case
  proof (cases "c = CHR 0x22")
    case True
    then show ?thesis using 3 by (cases y) auto
  next
    case nq: False
    show ?thesis
    proof (cases "c = CHR 0x5C")
      case True
      then obtain b' where b': "split_body cs = Some (b', r)" "b = c # e # b'"
        using "3.prems" nq by auto
      show ?thesis using "3.IH"(1) [OF nq True b'(1)] b'(2) nq True by simp
    next
      case False
      then obtain b' where b': "split_body (e # cs) = Some (b', r)" "b = c # b'"
        using "3.prems" nq by auto
      show ?thesis using "3.IH"(2) [OF nq False b'(1)] b'(2)
        by (simp add: split_body_Cons [OF nq False])
    qed
  qed
qed

lemma split_body_no_quote: "CHR 0x22 \<notin> set q \<Longrightarrow> split_body q = None"
  by (induction q rule: split_body.induct) auto

lemma split_body_prefix:
  "split_body (p @ q) = Some (b, r) \<Longrightarrow> CHR 0x22 \<notin> set q \<Longrightarrow>
     \<exists>r'. r = r' @ q \<and> split_body p = Some (b, r')"
proof (induction p arbitrary: b r rule: split_body.induct)
  case 1
  then show ?case by (simp add: split_body_no_quote)
next
  case (2 c)
  show ?case
  proof (cases q)
    case Nil
    then show ?thesis using 2 by simp
  next
    case (Cons e q')
    then have "CHR 0x22 \<notin> set q'" using 2 by simp
    then have "split_body q' = None" by (rule split_body_no_quote)
    moreover have "split_body (e # q') = None" using 2 Cons by (simp add: split_body_no_quote)
    ultimately show ?thesis using 2 Cons by (auto split: if_splits)
  qed
next
  case (3 c e cs)
  then show ?case by (auto split: if_splits)
qed

subsection \<open>Runs of characters\<close>

lemma takeWhile_append_stop:
  "q = [] \<or> \<not> P (hd q) \<Longrightarrow> takeWhile P (p @ q) = takeWhile P p"
  by (induction p) (auto simp: takeWhile_eq_Nil_iff)

lemma dropWhile_append_stop:
  "q = [] \<or> \<not> P (hd q) \<Longrightarrow> dropWhile P (p @ q) = dropWhile P p @ q"
  by (induction p) (auto simp: dropWhile_eq_self_iff)

lemma boundary_num: "boundary q \<Longrightarrow> q = [] \<or> \<not> numchar (hd q)"
  by (cases q) (auto simp: boundary_def)

lemma boundary_lower: "boundary q \<Longrightarrow> q = [] \<or> \<not> lower (hd q)"
  by (cases q) (auto simp: boundary_def)

lemma dropWhile_shorter: "length (dropWhile P cs) < Suc (length cs)"
  by (simp add: less_Suc_eq_le length_dropWhile_le)

subsection \<open>The lexer on concatenations\<close>

lemma lex_append:
  "lex a = Some ta \<Longrightarrow> boundary b \<Longrightarrow> lex (a @ b) = map_option ((@) ta) (lex b)"
proof (induction a arbitrary: ta rule: length_induct)
  case (1 a)
  note IH = "1.IH" [rule_format] and bd = \<open>boundary b\<close>
  show ?case
  proof (cases a)
    case Nil
    then show ?thesis using "1.prems" by (simp add: option.map_ident)
  next
    case (Cons c cs)
    show ?thesis
    proof (cases c rule: char_cases)
      case ws
      then have "lex cs = Some ta" using "1.prems" Cons by (simp add: lex_ws)
      then show ?thesis using IH [of cs ta] bd Cons ws by (simp add: lex_ws)
    next
      case (punct t)
      then obtain ta' where ta': "lex cs = Some ta'" "ta = t # ta'"
        using "1.prems" Cons by (auto simp: lex_punct)
      show ?thesis using IH [of cs ta'] bd Cons punct ta'
        by (simp add: lex_punct option.map_comp comp_def)
    next
      case quote
      then obtain bo r s ta' where sb: "split_body cs = Some (bo, r)" "decode bo = Some s"
        "lex r = Some ta'" "ta = TStr s # ta'"
        using "1.prems" Cons by (auto simp: lex_quote split: option.splits)
      have "length r < length a" using split_body_shorter [OF sb(1)] Cons by simp
      then show ?thesis using IH [of r ta'] bd Cons quote sb split_body_append [OF sb(1), of b]
        by (simp add: lex_quote option.map_comp comp_def)
    next
      case num
      then obtain ta' where n: "valid_number (c # takeWhile numchar cs)"
        "lex (dropWhile numchar cs) = Some ta'" "ta = TNum (c # takeWhile numchar cs) # ta'"
        using "1.prems" Cons by (auto simp: lex_num split: if_splits)
      have "length (dropWhile numchar cs) < length a" using Cons by (simp add: dropWhile_shorter)
      then show ?thesis
        using IH [of "dropWhile numchar cs" ta'] bd Cons num n
          takeWhile_append_stop [where P = numchar and p = cs, OF boundary_num [OF bd]]
          dropWhile_append_stop [where P = numchar and p = cs, OF boundary_num [OF bd]]
        by (simp add: lex_num option.map_comp comp_def)
    next
      case lit
      then obtain t ta' where l: "literal (c # takeWhile lower cs) = Some t"
        "lex (dropWhile lower cs) = Some ta'" "ta = t # ta'"
        using "1.prems" Cons by (auto simp: lex_lit split: option.splits)
      have "length (dropWhile lower cs) < length a" using Cons by (simp add: dropWhile_shorter)
      then show ?thesis
        using IH [of "dropWhile lower cs" ta'] bd Cons lit l
          takeWhile_append_stop [where P = lower and p = cs, OF boundary_lower [OF bd]]
          dropWhile_append_stop [where P = lower and p = cs, OF boundary_lower [OF bd]]
        by (simp add: lex_lit option.map_comp comp_def)
    next
      case other
      then show ?thesis using "1.prems" Cons by (simp add: lex_other)
    qed
  qed
qed


lemma lex_ws_only: "\<forall>d\<in>set w. json_ws d \<Longrightarrow> lex w = Some []"
  by (induction w) (auto simp: lex_ws)

lemma lex_ws_prefix: "\<forall>d\<in>set w. json_ws d \<Longrightarrow> lex (w @ x) = lex x"
  by (induction w) (auto simp: lex_ws)

lemma lex_Nil_ws: "lex x = Some [] \<Longrightarrow> \<forall>d\<in>set x. json_ws d"
proof (induction x)
  case Nil
  then show ?case by simp
next
  case (Cons c cs)
  show ?case
  proof (cases c rule: char_cases)
    case ws
    then show ?thesis using Cons by (simp add: lex_ws)
  next
    case (punct t)
    then show ?thesis using Cons.prems by (auto simp: lex_punct)
  next
    case quote
    then show ?thesis using Cons.prems by (auto simp: lex_quote split: option.splits)
  next
    case num
    then show ?thesis using Cons.prems by (auto simp: lex_num split: if_splits)
  next
    case lit
    then show ?thesis using Cons.prems by (auto simp: lex_lit split: option.splits)
  next
    case other
    then show ?thesis using Cons.prems by (simp add: lex_other)
  qed
qed

lemma lex_js_ws_only: "\<forall>d\<in>set w. js_ws d \<Longrightarrow> lex w = Some t \<Longrightarrow> t = []"
proof (induction w)
  case Nil
  then show ?case by simp
next
  case (Cons c cs)
  have c: "js_ws c" using Cons.prems by simp
  show ?case
  proof (cases "json_ws c")
    case True
    then show ?thesis using Cons by (simp add: lex_ws)
  next
    case False
    then have "lex (c # cs) = None"
      using js_ws_facts [OF c] by (intro lex_other) auto
    then show ?thesis using Cons.prems by simp
  qed
qed

lemma lex_dropWhile_js_ws: "lex x = Some t \<Longrightarrow> lex (dropWhile js_ws x) = Some t"
proof (induction x)
  case Nil
  then show ?case by simp
next
  case (Cons c cs)
  show ?case
  proof (cases "js_ws c")
    case c: True
    show ?thesis
    proof (cases "json_ws c")
      case True
      then show ?thesis using Cons c by (simp add: lex_ws)
    next
      case False
      then have "lex (c # cs) = None"
        using js_ws_facts [OF c] by (intro lex_other) auto
      then show ?thesis using Cons.prems by simp
    qed
  next
    case False
    then show ?thesis using Cons.prems by simp
  qed
qed

text \<open>A text that ends in a separator: the tokens of the part before the separator.\<close>

lemma lex_prefix:
  "lex (y @ q) = Some t \<Longrightarrow> CHR 0x22 \<notin> set q \<Longrightarrow> boundary q \<Longrightarrow>
     \<exists>t1 t2. lex y = Some t1 \<and> lex q = Some t2 \<and> t = t1 @ t2"
proof (induction y arbitrary: t rule: length_induct)
  case (1 y)
  note IH = "1.IH" [rule_format] and nq = \<open>CHR 0x22 \<notin> set q\<close> and bd = \<open>boundary q\<close>
  show ?case
  proof (cases y)
    case Nil
    then show ?thesis using "1.prems" by simp
  next
    case (Cons c cs)
    have lx: "lex (c # cs @ q) = Some t" using "1.prems"(1) Cons by simp
    show ?thesis
    proof (cases c rule: char_cases)
      case ws
      then have "lex (cs @ q) = Some t" using lx by (simp add: lex_ws)
      then show ?thesis using IH [of cs t] nq bd Cons ws by (simp add: lex_ws)
    next
      case (punct p)
      then obtain t' where t': "lex (cs @ q) = Some t'" "t = p # t'"
        using lx by (auto simp: lex_punct)
      show ?thesis using IH [of cs t'] nq bd Cons punct t' by (auto simp: lex_punct)
    next
      case quote
      then obtain bo r s t' where sb: "split_body (cs @ q) = Some (bo, r)" "decode bo = Some s"
        "lex r = Some t'" "t = TStr s # t'"
        using lx by (auto simp: lex_quote split: option.splits)
      obtain r' where r': "r = r' @ q" "split_body cs = Some (bo, r')"
        using split_body_prefix [OF sb(1) nq] by blast
      have "length r' < length y" using split_body_shorter [OF r'(2)] Cons by simp
      then show ?thesis using IH [of r' t'] nq bd Cons quote sb r'
        by (auto simp: lex_quote)
    next
      case num
      note tw = takeWhile_append_stop [where P = numchar and p = cs, OF boundary_num [OF bd]]
        and dw = dropWhile_append_stop [where P = numchar and p = cs, OF boundary_num [OF bd]]
      obtain t' where n: "valid_number (c # takeWhile numchar cs)"
        "lex (dropWhile numchar cs @ q) = Some t'" "t = TNum (c # takeWhile numchar cs) # t'"
        using lx num by (auto simp: lex_num tw dw split: if_splits)
      have "length (dropWhile numchar cs) < length y" using Cons by (simp add: dropWhile_shorter)
      then show ?thesis using IH [of "dropWhile numchar cs" t'] nq bd Cons num n
        by (auto simp: lex_num)
    next
      case lit
      note tw = takeWhile_append_stop [where P = lower and p = cs, OF boundary_lower [OF bd]]
        and dw = dropWhile_append_stop [where P = lower and p = cs, OF boundary_lower [OF bd]]
      obtain p t' where l: "literal (c # takeWhile lower cs) = Some p"
        "lex (dropWhile lower cs @ q) = Some t'" "t = p # t'"
        using lx lit by (auto simp: lex_lit tw dw split: option.splits)
      have "length (dropWhile lower cs) < length y" using Cons by (simp add: dropWhile_shorter)
      then show ?thesis using IH [of "dropWhile lower cs" t'] nq bd Cons lit l
        by (auto simp: lex_lit)
    next
      case other
      then show ?thesis using lx by (simp add: lex_other)
    qed
  qed
qed

lemma dropWhile_take_stop:
  assumes d: "dropWhile P cs = a' @ rest"
  shows "takeWhile P (takeWhile P cs @ a') = takeWhile P cs \<and>
     dropWhile P (takeWhile P cs @ a') = a'"
proof -
  have stop: "a' = [] \<or> \<not> P (hd a')"
  proof (cases a')
    case Nil
    then show ?thesis by simp
  next
    case (Cons x xs)
    then have "\<not> P x" using d hd_dropWhile [of P cs] by auto
    then show ?thesis using Cons by simp
  qed
  have all: "\<forall>x\<in>set (takeWhile P cs). P x" by (auto dest: set_takeWhileD)
  have t: "takeWhile P (takeWhile P cs) = takeWhile P cs"
    using all by (simp add: takeWhile_eq_all_conv)
  have dr: "dropWhile P (takeWhile P cs) = []"
    using all by simp
  show ?thesis
    using takeWhile_append_stop [where P = P and p = "takeWhile P cs", OF stop]
      dropWhile_append_stop [where P = P and p = "takeWhile P cs", OF stop] t dr
    by simp
qed

text \<open>A text whose last token is a punctuation mark: the mark is its last character
  but white space, and what stands before the mark gives the tokens before it.\<close>

lemma lex_last_punct:
  "lex x = Some (t @ [p]) \<Longrightarrow> punct c0 = Some p \<Longrightarrow>
     \<exists>a w. x = a @ c0 # w \<and> (\<forall>d\<in>set w. json_ws d) \<and> lex a = Some t"
proof (induction x arbitrary: t rule: length_induct)
  case (1 x)
  note IH = "1.IH" [rule_format] and p = \<open>punct c0 = Some p\<close>
  have ptok: "p \<in> {LBrack, RBrack, LBrace, RBrace, Comma, Colon}"
    using p by (auto simp: punct_def split: if_splits)
  show ?case
  proof (cases x)
    case Nil
    then show ?thesis using "1.prems" by simp
  next
    case (Cons c cs)
    have lx: "lex (c # cs) = Some (t @ [p])" using "1.prems"(1) Cons by simp
    show ?thesis
    proof (cases c rule: char_cases)
      case ws
      then have "lex cs = Some (t @ [p])" using lx by (simp add: lex_ws)
      then obtain a w where "cs = a @ c0 # w" "\<forall>d\<in>set w. json_ws d" "lex a = Some t"
        using IH [of cs t] p Cons by auto
      then have "x = (c # a) @ c0 # w \<and> (\<forall>d\<in>set w. json_ws d) \<and> lex (c # a) = Some t"
        using Cons ws by (simp add: lex_ws)
      then show ?thesis by blast
    next
      case (punct p')
      then obtain t' where t': "lex cs = Some t'" "p' # t' = t @ [p]"
        using lx by (auto simp: lex_punct)
      show ?thesis
      proof (cases t)
        case Nil
        then have "t' = []" "p' = p" using t' by auto
        then have "c = c0" "\<forall>d\<in>set cs. json_ws d"
          using punct p punct_inj lex_Nil_ws t' by auto
        then have "x = [] @ c0 # cs \<and> (\<forall>d\<in>set cs. json_ws d) \<and> lex [] = Some t"
          using Cons Nil by simp
        then show ?thesis by blast
      next
        case (Cons q t'')
        then have "t' = t'' @ [p]" "q = p'" using t' by auto
        then obtain a w where "cs = a @ c0 # w" "\<forall>d\<in>set w. json_ws d" "lex a = Some t''"
          using IH [of cs t''] p t' \<open>x = c # cs\<close> by auto
        then have "x = (c # a) @ c0 # w \<and> (\<forall>d\<in>set w. json_ws d) \<and> lex (c # a) = Some t"
          using \<open>x = c # cs\<close> punct Cons \<open>q = p'\<close> by (simp add: lex_punct)
        then show ?thesis by blast
      qed
    next
      case quote
      then obtain bo r s t' where sb: "split_body cs = Some (bo, r)" "decode bo = Some s"
        "lex r = Some t'" "TStr s # t' = t @ [p]"
        using lx by (auto simp: lex_quote split: option.splits)
      then obtain t'' where t'': "t = TStr s # t''" "t' = t'' @ [p]"
        using ptok by (cases t) auto
      have "length r < length x" using split_body_shorter [OF sb(1)] Cons by simp
      then obtain a w where aw: "r = a @ c0 # w" "\<forall>d\<in>set w. json_ws d" "lex a = Some t''"
        using IH [of r t''] p sb t'' by auto
      have "cs = bo @ CHR 0x22 # r" using split_body_decomp [OF sb(1)] .
      moreover have "lex (CHR 0x22 # bo @ CHR 0x22 # a) = Some t"
        using split_body_closed [OF sb(1), of a] sb(2) aw(3) t''(1) by (simp add: lex_quote)
      ultimately have "x = (c # bo @ CHR 0x22 # a) @ c0 # w \<and> (\<forall>d\<in>set w. json_ws d)
          \<and> lex (c # bo @ CHR 0x22 # a) = Some t"
        using Cons quote aw by simp
      then show ?thesis by blast
    next
      case num
      then obtain t' where n: "valid_number (c # takeWhile numchar cs)"
        "lex (dropWhile numchar cs) = Some t'" "TNum (c # takeWhile numchar cs) # t' = t @ [p]"
        using lx by (auto simp: lex_num split: if_splits)
      then obtain t'' where t'': "t = TNum (c # takeWhile numchar cs) # t''" "t' = t'' @ [p]"
        using ptok by (cases t) auto
      have "length (dropWhile numchar cs) < length x" using Cons by (simp add: dropWhile_shorter)
      then obtain a w where aw: "dropWhile numchar cs = a @ c0 # w" "\<forall>d\<in>set w. json_ws d"
        "lex a = Some t''"
        using IH [of "dropWhile numchar cs" t''] p n t'' by auto
      have st: "takeWhile numchar (takeWhile numchar cs @ a) = takeWhile numchar cs"
        "dropWhile numchar (takeWhile numchar cs @ a) = a"
        using dropWhile_take_stop [OF aw(1)] by auto
      have "cs = takeWhile numchar cs @ a @ c0 # w"
        using aw(1) takeWhile_dropWhile_id [of numchar cs] by simp
      moreover have "lex (c # takeWhile numchar cs @ a) = Some t"
        using num n(1) aw(3) t''(1) st by (simp add: lex_num)
      ultimately have "x = (c # takeWhile numchar cs @ a) @ c0 # w \<and> (\<forall>d\<in>set w. json_ws d)
          \<and> lex (c # takeWhile numchar cs @ a) = Some t"
        using Cons aw by simp
      then show ?thesis by blast
    next
      case lit
      then obtain p' t' where l: "literal (c # takeWhile lower cs) = Some p'"
        "lex (dropWhile lower cs) = Some t'" "p' # t' = t @ [p]"
        using lx by (auto simp: lex_lit split: option.splits)
      have "p' \<noteq> p" using l(1) ptok by (auto simp: literal_def split: if_splits)
      then obtain t'' where t'': "t = p' # t''" "t' = t'' @ [p]"
        using l(3) by (cases t) auto
      have "length (dropWhile lower cs) < length x" using Cons by (simp add: dropWhile_shorter)
      then obtain a w where aw: "dropWhile lower cs = a @ c0 # w" "\<forall>d\<in>set w. json_ws d"
        "lex a = Some t''"
        using IH [of "dropWhile lower cs" t''] p l t'' by auto
      have st: "takeWhile lower (takeWhile lower cs @ a) = takeWhile lower cs"
        "dropWhile lower (takeWhile lower cs @ a) = a"
        using dropWhile_take_stop [OF aw(1)] by auto
      have "cs = takeWhile lower cs @ a @ c0 # w"
        using aw(1) takeWhile_dropWhile_id [of lower cs] by simp
      moreover have "lex (c # takeWhile lower cs @ a) = Some t"
        using lit l(1) aw(3) t''(1) st by (simp add: lex_lit)
      ultimately have "x = (c # takeWhile lower cs @ a) @ c0 # w \<and> (\<forall>d\<in>set w. json_ws d)
          \<and> lex (c # takeWhile lower cs @ a) = Some t"
        using Cons aw by simp
      then show ?thesis by blast
    next
      case other
      then show ?thesis using lx by (simp add: lex_other)
    qed
  qed
qed

subsection \<open>Strings\<close>

lemma hex_digit_code:
  "n < 16 \<Longrightarrow> (of_char (hex_digit n) :: nat) = (if n < 10 then 48 + n else 87 + n)"
  by (auto simp: hex_digit_def)

lemma hex_val_hex_digit: "n < 16 \<Longrightarrow> hex_val (hex_digit n) = Some n"
  by (auto simp: hex_val_def hex_digit_code Let_def)

lemma hex_digit_plain: "n < 16 \<Longrightarrow> hex_digit n \<noteq> CHR 0x22 \<and> hex_digit n \<noteq> CHR 0x5C"
  using hex_digit_code [of n] by (auto simp: char_eq_nat [of "hex_digit n"] simp del: of_char_eq_iff)

lemma decode_Cons: "decode_char s = Some (c, r) \<Longrightarrow> decode s = map_option ((#) c) (decode r)"
  by (subst decode.simps) (auto simp: decode_char_def)

lemma decode_Nil: "decode [] = Some []"
  by (subst decode.simps) simp

lemma char_of_split: "(of_char c :: nat) < 32 \<Longrightarrow>
  char_of (16 * (of_char c div 16) + of_char c mod 16 :: nat) = c"
  by simp

lemma decode_char_escape: "decode_char (escape_char c @ xs) = Some (c, xs)"
proof -
  consider (q) "c = CHR 0x22" | (b) "c = CHR 0x5C" | (bs) "c = CHR 0x08" | (ff) "c = CHR 0x0C"
    | (nl) "c = CHR 0x0A" | (cr) "c = CHR 0x0D" | (tab) "c = CHR 0x09"
    | (ctl) "c \<notin> {CHR 0x22, CHR 0x5C, CHR 0x08, CHR 0x0C, CHR 0x0A, CHR 0x0D, CHR 0x09}"
        "(of_char c :: nat) < 32"
    | (plain) "c \<notin> {CHR 0x22, CHR 0x5C, CHR 0x08, CHR 0x0C, CHR 0x0A, CHR 0x0D, CHR 0x09}"
        "\<not> (of_char c :: nat) < 32"
    by blast
  then show ?thesis
  proof cases
    case ctl
    have d: "(of_char c :: nat) div 16 < 16" "(of_char c :: nat) mod 16 < 16"
      using ctl(2) by auto
    have e: "escape_char c = [CHR 0x5C, CHR ''u'', CHR ''0'', CHR ''0'',
         hex_digit (of_char c div 16), hex_digit (of_char c mod 16)]"
      using ctl by (simp add: escape_char_def)
    have z: "hex_val (CHR ''0'') = Some 0" by (simp add: hex_val_def)
    show ?thesis
      using hex_val_hex_digit [OF d(1)] hex_val_hex_digit [OF d(2)] z char_of_split [OF ctl(2)]
      by (simp add: e decode_char_def)
  next
    case plain
    then show ?thesis by (simp add: escape_char_def decode_char_def)
  qed (simp_all add: escape_char_def decode_char_def unescape_def)
qed

lemma decode_escape: "decode (concat (map escape_char s)) = Some s"
proof (induction s)
  case Nil
  show ?case by (simp add: decode_Nil)
next
  case (Cons c s)
  show ?case
    using decode_Cons [OF decode_char_escape [of c "concat (map escape_char s)"]] Cons
    by simp
qed

lemma split_body_escape_char:
  assumes ne: "xs \<noteq> []"
  shows "split_body (escape_char c @ xs) =
    map_option (\<lambda>(b, r). (escape_char c @ b, r)) (split_body xs)"
proof -
  obtain x xs' where xs: "xs = x # xs'" using ne by (cases xs) auto
  consider (esc) "c \<in> {CHR 0x22, CHR 0x5C, CHR 0x08, CHR 0x0C, CHR 0x0A, CHR 0x0D, CHR 0x09}"
    | (ctl) "c \<notin> {CHR 0x22, CHR 0x5C, CHR 0x08, CHR 0x0C, CHR 0x0A, CHR 0x0D, CHR 0x09}"
        "(of_char c :: nat) < 32"
    | (plain) "c \<notin> {CHR 0x22, CHR 0x5C, CHR 0x08, CHR 0x0C, CHR 0x0A, CHR 0x0D, CHR 0x09}"
        "\<not> (of_char c :: nat) < 32"
    by blast
  then show ?thesis
  proof cases
    case esc
    then show ?thesis
      by (auto simp: escape_char_def xs option.map_comp comp_def split_def)
  next
    case ctl
    have d: "(of_char c :: nat) div 16 < 16" "(of_char c :: nat) mod 16 < 16"
      using ctl(2) by auto
    have e: "escape_char c = [CHR 0x5C, CHR ''u'', CHR ''0'', CHR ''0'',
         hex_digit (of_char c div 16), hex_digit (of_char c mod 16)]"
      using ctl by (simp add: escape_char_def)
    show ?thesis
      using hex_digit_plain [OF d(1)] hex_digit_plain [OF d(2)]
      by (simp add: e xs option.map_comp comp_def split_def)
  next
    case plain
    then show ?thesis by (simp add: escape_char_def xs option.map_comp comp_def split_def)
  qed
qed

lemma split_body_escape:
  "split_body (concat (map escape_char s) @ CHR 0x22 # y) = Some (concat (map escape_char s), y)"
proof (induction s)
  case Nil
  show ?case by (cases y) auto
next
  case (Cons c s)
  show ?case
    using split_body_escape_char [of "concat (map escape_char s) @ CHR 0x22 # y" c] Cons
    by simp
qed

lemma lex_quote_string: "lex (quote s @ rest) = map_option ((#) (TStr s)) (lex rest)"
  by (simp add: quote_def lex_quote split_body_escape decode_escape)

subsection \<open>Numbers\<close>

lemma wf_num_lex:
  assumes "wf_num l"
  shows "lex l = Some [TNum l]"
proof -
  obtain c cs where l: "l = c # cs" using assms by (cases l) (auto simp: wf_num_def valid_number_def)
  have c: "is_digit c \<or> c = CHR ''-''"
    using assms l
    by (auto simp: wf_num_def valid_number_def valid_int_rest_def is_digit_def split: if_splits)
  have all: "\<forall>x\<in>set cs. numchar x" using assms l by (simp add: wf_num_def)
  then have tw: "takeWhile numchar cs = cs" "dropWhile numchar cs = []"
    by (simp_all add: takeWhile_eq_all_conv)
  show ?thesis using assms l c by (simp add: lex_num wf_num_def tw)
qed

lemma digit_char:
  assumes "0 \<le> k" "k < 10"
  shows "is_digit (char_of (48 + k :: int))" "char_of (48 + k :: int) = CHR ''0'' \<longleftrightarrow> k = 0"
proof -
  have "(of_char (char_of (48 + k) :: char) :: int) = 48 + k"
    using assms by simp
  then have n: "(of_char (char_of (48 + k) :: char) :: nat) = nat (48 + k)"
    using nat_of_char [of "char_of (48 + k)"] by simp
  have "nat (48 + k) = 48 + nat k" using assms by simp
  then show "is_digit (char_of (48 + k :: int))"
    using assms by (simp add: is_digit_def n)
  have "(char_of (48 + k :: int) = CHR ''0'') = (nat (48 + k) = 48)"
    unfolding char_eq_nat [of "char_of (48 + k)" "CHR ''0''"] n by simp
  then show "char_of (48 + k :: int) = CHR ''0'' \<longleftrightarrow> k = 0"
    using assms by (auto simp: nat_eq_iff)
qed

lemma show_digits_digits:
  "0 \<le> n \<Longrightarrow> show_digits n \<noteq> [] \<and> (\<forall>c\<in>set (show_digits n). is_digit c)
     \<and> (hd (show_digits n) = CHR ''0'' \<longrightarrow> show_digits n = ''0'')"
proof (induction n rule: show_digits.induct)
  case (1 n)
  show ?case
  proof (cases "n < 10")
    case True
    then have "show_digits n = [char_of (48 + n)]" by (subst show_digits.simps) simp
    then show ?thesis using digit_char [OF 1(2) True] by auto
  next
    case False
    then have s: "show_digits n = show_digits (n div 10) @ [char_of (48 + n mod 10)]"
      by (subst show_digits.simps) simp
    have d: "is_digit (char_of (48 + n mod 10))"
      by (rule digit_char) simp_all
    have pos: "0 \<le> n div 10" "1 \<le> n div 10" using False by simp_all
    note IH = 1(1) [OF False pos(1)]
    have "show_digits (n div 10) \<noteq> ''0''"
    proof
      assume z: "show_digits (n div 10) = ''0''"
      show False
      proof (cases "n div 10 < 10")
        case True
        then have "show_digits (n div 10) = [char_of (48 + n div 10)]"
          by (subst show_digits.simps) simp
        then show False using z digit_char(2) [OF pos(1) True] pos(2) by simp
      next
        case False
        then have "show_digits (n div 10) =
            show_digits (n div 10 div 10) @ [char_of (48 + n div 10 mod 10)]"
          by (subst show_digits.simps) simp
        moreover have "show_digits (n div 10 div 10) \<noteq> []"
          by (subst show_digits.simps) simp
        ultimately show False using z by (cases "show_digits (n div 10 div 10)") auto
      qed
    qed
    then show ?thesis using IH s d by auto
  qed
qed


lemma valid_int_rest_digits:
  assumes "ds \<noteq> []" "\<forall>c\<in>set ds. is_digit c" "hd ds = CHR ''0'' \<longrightarrow> ds = ''0''"
  shows "valid_int_rest ds"
proof -
  obtain c r where ds: "ds = c # r" using assms(1) by (cases ds) auto
  have r: "dropWhile is_digit r = []" using assms(2) ds by simp
  show ?thesis using assms ds by (auto simp: valid_int_rest_def valid_frac_exp_def r)
qed

lemma wf_num_show_int: "wf_num (show_int i)"
proof (cases "i < 0")
  case True
  then have n: "0 \<le> - i" by simp
  note d = show_digits_digits [OF n]
  have "valid_int_rest (show_digits (- i))" using d by (intro valid_int_rest_digits) auto
  then show ?thesis using True d
    by (auto simp: wf_num_def show_int_def valid_number_def numchar_def)
next
  case False
  then have n: "0 \<le> i" by simp
  note d = show_digits_digits [OF n]
  have v: "valid_int_rest (show_digits i)" using d by (intro valid_int_rest_digits) auto
  obtain c r where s: "show_digits i = c # r" using d by (cases "show_digits i") auto
  have "c \<noteq> CHR ''-''" using d s by (auto simp: is_digit_def)
  then show ?thesis using False d v s
    by (auto simp: wf_num_def show_int_def valid_number_def numchar_def)
qed

lemma wf_swap_json: "wf_json (swap_json s)"
  by (simp add: swap_json_def wf_num_show_int)

subsection \<open>The lexer on printed values\<close>

lemma lex_then:
  "lex a = Some ta \<Longrightarrow> boundary b \<Longrightarrow> lex b = Some tb \<Longrightarrow> lex (a @ b) = Some (ta @ tb)"
  by (simp add: lex_append)

lemma boundary_simps [simp]:
  "boundary (CHR '','' # x)" "boundary (CHR '']'' # x)" "boundary (CHR ''}'' # x)"
  "boundary (CHR '':'' # x)" "boundary (CHR 0x0A # x)" "boundary (CHR '' '' # x)"
  "boundary (CHR 0x22 # x)" "boundary []"
  by (simp_all add: boundary_def numchar_def lower_def is_digit_def)

lemma lex_marks [simp]:
  "lex (CHR '','' # x) = map_option ((#) Comma) (lex x)"
  "lex (CHR '']'' # x) = map_option ((#) RBrack) (lex x)"
  "lex (CHR ''}'' # x) = map_option ((#) RBrace) (lex x)"
  "lex (CHR '':'' # x) = map_option ((#) Colon) (lex x)"
  "lex (CHR ''['' # x) = map_option ((#) LBrack) (lex x)"
  "lex (CHR ''{'' # x) = map_option ((#) LBrace) (lex x)"
  "lex (CHR '' '' # x) = lex x"
  "lex (CHR 0x0A # x) = lex x"
  by (simp_all add: lex_punct punct_def lex_ws json_ws_def)

lemma lex_literals:
  "lex ''null'' = Some [TNull]" "lex ''true'' = Some [TTrue]" "lex ''false'' = Some [TFalse]"
  by (simp_all add: lex_lit lower_def literal_def)

lemma lex_quote_only: "lex (quote s) = Some [TStr s]"
  using lex_quote_string [of s "[]"] by simp

lemma lex_stringify:
  "wf_json v \<longrightarrow> lex (stringify v) = Some (toks v)"
  "wf_elems vs \<longrightarrow> lex (stringify_elems vs) = Some (toks_elems vs)"
  "wf_members ms \<longrightarrow> lex (stringify_members ms) = Some (toks_members ms)"
proof (induction v and vs and ms rule: stringify_stringify_elems_stringify_members.induct)
  case 1
  show ?case by (simp add: lex_literals)
next
  case (2 b)
  show ?case by (simp add: lex_literals)
next
  case (3 l)
  show ?case by (simp add: wf_num_lex)
next
  case (4 s)
  show ?case by (simp add: lex_quote_only)
next
  case (5 vs)
  show ?case using 5 by (auto simp: lex_then)
next
  case (6 ms)
  show ?case using 6 by (auto simp: lex_then)
next
  case 7
  show ?case by simp
next
  case (8 v)
  then show ?case by simp
next
  case (9 v w vs)
  show ?case using 9 by (auto simp: lex_then)
next
  case 10
  show ?case by simp
next
  case (11 k v)
  show ?case using 11 by (auto simp: lex_quote_string)
next
  case (12 k v m ms)
  show ?case using 12 by (auto simp: lex_quote_string lex_then)
qed

lemma newline_indent_ws: "\<forall>d\<in>set (newline_indent n). json_ws d"
  by (auto simp: newline_indent_def json_ws_def)

lemma lex_newline_indent [simp]: "lex (newline_indent n @ x) = lex x"
  by (rule lex_ws_prefix [OF newline_indent_ws])

lemma boundary_newline_indent [simp]: "boundary (newline_indent n @ x)"
  by (simp add: newline_indent_def)

lemma lex_stringify_indent:
  "wf_json v \<longrightarrow> lex (stringify_indent n v) = Some (toks v)"
  "wf_elems vs \<longrightarrow> lex (indent_elems n vs) = Some (toks_elems vs)"
  "wf_members ms \<longrightarrow> lex (indent_members n ms) = Some (toks_members ms)"
proof (induction n v and n vs and n ms rule: stringify_indent_indent_elems_indent_members.induct)
  case (1 ind)
  show ?case by (simp add: lex_literals)
next
  case (2 ind b)
  show ?case by (simp add: lex_literals)
next
  case (3 ind l)
  show ?case by (simp add: wf_num_lex)
next
  case (4 ind s)
  show ?case by (simp add: lex_quote_only)
next
  case (5 ind vs)
  show ?case using 5 by (auto simp: lex_then)
next
  case (6 ind ms)
  show ?case using 6 by (auto simp: lex_then)
next
  case (7 ind)
  show ?case by simp
next
  case (8 ind v)
  then show ?case by simp
next
  case (9 ind v w vs)
  show ?case using 9 by (auto simp: lex_then)
next
  case (10 ind)
  show ?case by simp
next
  case (11 ind k v)
  show ?case using 11 by (auto simp: lex_quote_string)
next
  case (12 ind k v m ms)
  show ?case using 12 by (auto simp: lex_quote_string lex_then)
qed

subsection \<open>The parser on the tokens of a value\<close>

lemma toks_first: "\<exists>t ts. toks v = t # ts \<and> step (ArrStart K) t = step_value (ArrF [] # K) t"
  by (cases v) auto

lemma toks_elems_first:
  "vs \<noteq> [] \<Longrightarrow> \<exists>t ts. toks_elems vs = t # ts \<and> step (ArrStart K) t = step_value (ArrF [] # K) t"
proof (cases vs)
  case Nil
  assume "vs \<noteq> []"
  then show ?thesis using Nil by simp
next
  case (Cons v ws)
  obtain t ts where "toks v = t # ts" "step (ArrStart K) t = step_value (ArrF [] # K) t"
    using toks_first by blast
  then show ?thesis using Cons by (cases ws) auto
qed

lemma run_ArrStart:
  "vs \<noteq> [] \<Longrightarrow> run (ArrStart K) (toks_elems vs @ rest) = run (Val (ArrF [] # K)) (toks_elems vs @ rest)"
  using toks_elems_first [of vs K] by auto

lemma run_ObjStart:
  "ms \<noteq> [] \<Longrightarrow> run (ObjStart K) (toks_members ms @ rest) = run (ObjKey [] K) (toks_members ms @ rest)"
proof (cases ms)
  case Nil
  assume "ms \<noteq> []"
  then show ?thesis using Nil by simp
next
  case (Cons m ms')
  then show ?thesis by (cases m; cases ms') auto
qed

lemma run_toks:
  "run (Val K) (toks v @ rest) = run (After v K) rest"
  "vs \<noteq> [] \<longrightarrow>
     run (Val (ArrF xs # K')) (toks_elems vs @ RBrack # rest') = run (After (JArr (xs @ vs)) K') rest'"
  "ms \<noteq> [] \<longrightarrow>
     run (ObjKey ms0 K'') (toks_members ms @ RBrace # rest'') =
     run (After (JObj (ms0 @ ms)) K'') rest''"
proof (induction v and vs and ms arbitrary: K rest and xs K' rest' and ms0 K'' rest''
    rule: toks_toks_elems_toks_members.induct)
  case (5 vs)
  show ?case
  proof (cases "vs = []")
    case True
    then show ?thesis by simp
  next
    case False
    then show ?thesis using 5 [of "[]" K rest] run_ArrStart [OF False, of K "RBrack # rest"]
      by simp
  qed
next
  case (6 ms)
  show ?case
  proof (cases "ms = []")
    case True
    then show ?thesis by simp
  next
    case False
    then show ?thesis using 6 [of "[]" K rest] run_ObjStart [OF False, of K "RBrace # rest"]
      by simp
  qed
next
  case (9 v w vs)
  show ?case using 9(1) [of "ArrF xs # K'"] 9(2) [of "xs @ [v]" K' rest'] by simp
next
  case (11 k v)
  show ?case using 11 [of "ObjF ms0 k # K''"] by simp
next
  case (12 k v m ms)
  show ?case using 12(1) [of "ObjF ms0 k # K''"] 12(2) [of "ms0 @ [(k, v)]" K'' rest''] by simp
qed simp_all

theorem JSON_parse_stringify: "wf_json v \<Longrightarrow> JSON_parse (stringify v) = Some v"
  using run_toks(1) [of "[]" v "[]"] by (simp add: JSON_parse_def lex_stringify parse_tokens_def)

theorem JSON_parse_stringify_indent: "wf_json v \<Longrightarrow> JSON_parse (stringify_indent n v) = Some v"
  using run_toks(1) [of "[]" v "[]"]
  by (simp add: JSON_parse_def lex_stringify_indent parse_tokens_def)

subsection \<open>The parser, one token at a time\<close>

lemma run_append: "run st (ts @ us) = (case run st ts of None \<Rightarrow> None | Some st' \<Rightarrow> run st' us)"
  by (induction ts arbitrary: st) (auto split: option.splits)

lemma step_value_not_After_JArr: "step_value K t \<noteq> Some (After (JArr vs) K')"
  by (cases t) auto

lemma step_to_array:
  assumes "step st t = Some (After (JArr olds) [])"
  shows "t = RBrack \<and> ((st = ArrStart [] \<and> olds = []) \<or> (\<exists>v xs. st = After v [ArrF xs] \<and> olds = xs @ [v]))"
proof (cases st)
  case (Val K)
  then show ?thesis using assms step_value_not_After_JArr by simp
next
  case (ArrStart K)
  then show ?thesis using assms step_value_not_After_JArr by (auto split: if_splits)
next
  case (ObjStart K)
  then show ?thesis using assms by (auto split: token.splits)
next
  case (ObjKey ms K)
  then show ?thesis using assms by (auto split: token.splits)
next
  case (ObjColon ms k K)
  then show ?thesis using assms by (auto split: if_splits)
next
  case (After v K)
  show ?thesis
  proof (cases K)
    case Nil
    then show ?thesis using assms After by simp
  next
    case (Cons f K')
    then show ?thesis using assms After by (cases f) (auto split: if_splits)
  qed
qed

lemma step_value_LBrack: "step_value K t = Some (ArrStart K') \<Longrightarrow> t = LBrack"
  by (cases t) auto

lemma step_to_ArrStart: "step st t = Some (ArrStart K) \<Longrightarrow> t = LBrack"
proof (cases st)
  case (After v K')
  assume "step st t = Some (ArrStart K)"
  then show ?thesis using After
    by (cases K'; cases "hd K'") (auto split: if_splits)
next
  case (Val K')
  assume "step st t = Some (ArrStart K)"
  then show ?thesis using Val step_value_LBrack by auto
next
  case (ArrStart K')
  assume "step st t = Some (ArrStart K)"
  then show ?thesis using ArrStart step_value_LBrack by (auto split: if_splits)
qed (auto split: token.splits if_splits)

lemma step_LBrack: "step st LBrack = Some st' \<Longrightarrow> \<exists>K. st' = ArrStart K"
proof (cases st)
  case (After v K')
  assume "step st LBrack = Some st'"
  then show ?thesis using After by (cases K'; cases "hd K'") (auto split: if_splits)
qed (auto split: token.splits if_splits)

lemma run_last:
  assumes "run st ts = Some st'" "st' \<noteq> st"
  shows "\<exists>ts0 t st0. ts = ts0 @ [t] \<and> run st ts0 = Some st0 \<and> step st0 t = Some st'"
proof (cases ts rule: rev_cases)
  case Nil
  then show ?thesis using assms by simp
next
  case (snoc ts0 t)
  then show ?thesis using assms by (auto simp: run_append split: option.splits)
qed

subsection \<open>Trimming\<close>

lemma rstrip_decomp: "\<exists>w. x = rstrip x @ w \<and> (\<forall>d\<in>set w. js_ws d)"
proof -
  have "rev x = takeWhile js_ws (rev x) @ dropWhile js_ws (rev x)" by simp
  then have "x = rev (dropWhile js_ws (rev x)) @ rev (takeWhile js_ws (rev x))"
    by (metis rev_append rev_rev_ident)
  moreover have "\<forall>d\<in>set (rev (takeWhile js_ws (rev x))). js_ws d"
    by (auto dest: set_takeWhileD)
  ultimately show ?thesis unfolding rstrip_def by blast
qed

lemma rstrip_last: "rstrip x = [] \<or> \<not> js_ws (last (rstrip x))"
proof (cases "dropWhile js_ws (rev x)")
  case Nil
  then show ?thesis by (simp add: rstrip_def)
next
  case (Cons c cs)
  then have "\<not> js_ws c" using hd_dropWhile [of js_ws "rev x"] by auto
  then show ?thesis using Cons by (simp add: rstrip_def)
qed

lemma rstrip_snoc: "\<not> js_ws c \<Longrightarrow> rstrip (x @ [c]) = x @ [c]"
  by (simp add: rstrip_def)

lemma rstrip_ws: "\<forall>d\<in>set w. js_ws d \<Longrightarrow> rstrip (x @ w) = rstrip x"
proof -
  assume w: "\<forall>d\<in>set w. js_ws d"
  have "dropWhile js_ws (rev w @ rev x) = dropWhile js_ws (rev x)"
    by (rule dropWhile_append2) (use w in auto)
  then show ?thesis by (simp add: rstrip_def)
qed

lemma trim_alt: "trim s = rstrip (dropWhile js_ws s)"
  by (simp add: trim_def rstrip_def)

lemma rstrip_id: "x = [] \<or> \<not> js_ws (last x) \<Longrightarrow> rstrip x = x"
  by (cases x rule: rev_cases) (auto simp: rstrip_snoc rstrip_def)

lemma lex_rstrip: "lex x = Some t \<Longrightarrow> lex (rstrip x) = Some t"
proof -
  assume l: "lex x = Some t"
  obtain w where w: "x = rstrip x @ w" "\<forall>d\<in>set w. js_ws d" using rstrip_decomp by blast
  have nq: "CHR 0x22 \<notin> set w" using w(2) js_ws_facts(2) by auto
  have bd: "boundary w" using w(2) js_ws_facts(3,4) by (cases w) (auto simp: boundary_def)
  obtain t1 t2 where t: "lex (rstrip x) = Some t1" "lex w = Some t2" "t = t1 @ t2"
    using lex_prefix [of "rstrip x" w t] l w(1) nq bd by auto
  have "t2 = []" using lex_js_ws_only [OF w(2) t(2)] .
  then show ?thesis using t by simp
qed

lemma lex_trim: "lex x = Some t \<Longrightarrow> lex (trim x) = Some t"
  by (simp add: trim_alt lex_rstrip lex_dropWhile_js_ws)

text \<open>The trimmed text of a file whose last token is the closing bracket.\<close>

lemma trim_closing:
  assumes "lex content = Some (ts0 @ [RBrack])"
  shows "\<exists>a1. trim content = a1 @ '']'' \<and> lex a1 = Some ts0"
proof -
  have p: "punct (CHR '']'') = Some RBrack" by (simp add: punct_def)
  obtain a w where aw: "content = a @ CHR '']'' # w" "\<forall>d\<in>set w. json_ws d" "lex a = Some ts0"
    using lex_last_punct [OF assms p] by blast
  have nws: "\<not> js_ws (CHR '']'')" by (simp add: js_ws_def)
  have w: "\<forall>d\<in>set w. js_ws d" using aw(2) json_ws_facts(7) by blast
  have "dropWhile js_ws content = dropWhile js_ws a @ CHR '']'' # w"
    using dropWhile_append_stop [where P = js_ws and p = a and q = "CHR '']'' # w"] nws aw(1)
    by simp
  then have "trim content = rstrip ((dropWhile js_ws a @ '']'') @ w)"
    by (simp add: trim_alt)
  also have "\<dots> = rstrip (dropWhile js_ws a @ '']'')" using rstrip_ws [OF w] by blast
  also have "\<dots> = dropWhile js_ws a @ '']''" using rstrip_snoc [OF nws] by blast
  finally show ?thesis using lex_dropWhile_js_ws [OF aw(3)] by blast
qed

lemma strip_closing_bracket_snoc: "strip_closing_bracket (a1 @ '']'') = rstrip a1"
  by (simp add: strip_closing_bracket_def rstrip_def)

lemma endsWith_trim:
  assumes "x = [] \<or> \<not> js_ws (last x)"
  shows "endsWith (trim x) ''['' \<longleftrightarrow> x \<noteq> [] \<and> last x = CHR ''[''"
proof (cases x rule: rev_cases)
  case Nil
  then show ?thesis by (simp add: trim_def endsWith_def)
next
  case (snoc y c)
  then have c: "\<not> js_ws c" using assms by simp
  have "dropWhile js_ws (y @ [c]) = dropWhile js_ws y @ [c]"
    using dropWhile_append_stop [where P = js_ws and p = y and q = "[c]"] c by simp
  then have "trim x = dropWhile js_ws y @ [c]"
    using snoc rstrip_snoc [OF c] by (simp add: trim_alt)
  then show ?thesis using snoc by (auto simp: endsWith_def)
qed

subsection \<open>The rendered chunk\<close>

lemma lex_rendered:
  assumes "js \<noteq> []" "wf_elems js"
  shows "lex (join [CHR '','', CHR 0x0A] (map (\<lambda>j. ''  '' @ stringify j) js) @ [CHR 0x0A, CHR '']''])
     = Some (toks_elems js @ [RBrack])"
  using assms
proof (induction js rule: induct_list012)
  case 1
  then show ?case by simp
next
  case (2 v)
  then show ?case using lex_stringify(1) [of v] by (simp add: lex_then)
next
  case (3 v w vs)
  then show ?case using lex_stringify(1) [of v] by (simp add: lex_then)
qed

lemma rendered_boundary:
  "js \<noteq> [] \<Longrightarrow> boundary (join [CHR '','', CHR 0x0A] (map (\<lambda>j. ''  '' @ stringify j) js) @ x)"
proof (cases js)
  case Nil
  assume "js \<noteq> []"
  then show ?thesis using Nil by simp
next
  case (Cons j js')
  then show ?thesis by (cases js') auto
qed

lemma wf_elems_swaps: "wf_elems (map swap_json newSwaps)"
  by (induction newSwaps) (auto simp: wf_swap_json)

subsection \<open>Appending to a valid file\<close>

text \<open>What a valid array file looks like to the lexer and to the parser.\<close>

lemma valid_array_file:
  assumes "JSON_parse content = Some (JArr olds)"
  obtains ts0 st where "lex content = Some (ts0 @ [RBrack])" "run (Val []) ts0 = Some st"
    "(st = ArrStart [] \<and> olds = []) \<or> (\<exists>v xs. st = After v [ArrF xs] \<and> olds = xs @ [v])"
proof -
  obtain ts where ts: "lex content = Some ts" "parse_tokens ts = Some (JArr olds)"
    using assms by (auto simp: JSON_parse_def split: option.splits)
  have r: "run (Val []) ts = Some (After (JArr olds) [])"
    using ts(2) by (auto simp: parse_tokens_def split: option.splits pstate.splits list.splits)
  obtain ts0 t st where l: "ts = ts0 @ [t]" "run (Val []) ts0 = Some st"
    "step st t = Some (After (JArr olds) [])"
    using run_last [OF r] by auto
  show ?thesis using that [of ts0 st] step_to_array [OF l(3)] l ts(1) by auto
qed

lemma temp_text_parse:
  assumes valid: "JSON_parse content = Some (JArr olds)" and ne: "newSwaps \<noteq> []"
  shows "JSON_parse (temp_text (trim content) newSwaps) = Some (JArr (olds @ map swap_json newSwaps))"
proof -
  let ?js = "map swap_json newSwaps"
  let ?rendered = "join [CHR '','', CHR 0x0A] (map (\<lambda>j. ''  '' @ stringify j) ?js)"
  have js: "?js \<noteq> []" "wf_elems ?js" using ne by (simp_all add: wf_elems_swaps)
  have rendered: "join [CHR '','', CHR 0x0A] (map (\<lambda>swap. ''  '' @ stringify (swap_json swap)) newSwaps)
      = ?rendered"
    by (simp add: comp_def)
  obtain ts0 st where f: "lex content = Some (ts0 @ [RBrack])" "run (Val []) ts0 = Some st"
    "(st = ArrStart [] \<and> olds = []) \<or> (\<exists>v xs. st = After v [ArrF xs] \<and> olds = xs @ [v])"
    using valid_array_file [OF valid] by blast
  obtain a1 where a1: "trim content = a1 @ '']''" "lex a1 = Some ts0"
    using trim_closing [OF f(1)] by blast
  let ?a2 = "rstrip a1"
  have a2: "lex ?a2 = Some ts0" using lex_rstrip [OF a1(2)] .
  have strip: "strip_closing_bracket (trim content) = ?a2"
    by (simp add: a1(1) strip_closing_bracket_snoc)
  have ends: "endsWith (trim ?a2) ''['' \<longleftrightarrow> ?a2 \<noteq> [] \<and> last ?a2 = CHR ''[''"
    by (rule endsWith_trim) (rule rstrip_last)
  have lr: "lex (?rendered @ [CHR 0x0A, CHR '']'']) = Some (toks_elems ?js @ [RBrack])"
    using lex_rendered [OF js] .
  from f(3) show ?thesis
  proof
    assume st: "st = ArrStart [] \<and> olds = []"
    have "Some st \<noteq> Some (Val [])" using st by simp
    then obtain ts1 t st1 where l: "ts0 = ts1 @ [t]" "run (Val []) ts1 = Some st1"
      "step st1 t = Some st"
      using run_last [OF f(2)] st by auto
    have t: "t = LBrack" using step_to_ArrStart l(3) st by blast
    have p: "punct (CHR ''['') = Some LBrack" by (simp add: punct_def)
    obtain a3 w3 where a3: "?a2 = a3 @ CHR ''['' # w3" "\<forall>d\<in>set w3. json_ws d"
      using lex_last_punct [of ?a2 ts1 LBrack "CHR ''[''"] a2 l(1) t p by auto
    have "w3 = []"
    proof (rule ccontr)
      assume "w3 \<noteq> []"
      then have "last ?a2 = last w3" "last w3 \<in> set w3" using a3(1) by auto
      then have "js_ws (last ?a2)" using a3(2) json_ws_facts(7) by auto
      then show False using rstrip_last [of a1] a3(1) by auto
    qed
    then have e: "endsWith (trim ?a2) ''[''" using ends a3(1) by simp
    have tt: "temp_text (trim content) newSwaps = ?a2 @ (?rendered @ [CHR 0x0A, CHR '']''])"
      unfolding temp_text_def Let_def strip rendered using e by simp
    have "lex (temp_text (trim content) newSwaps) = Some (ts0 @ toks_elems ?js @ [RBrack])"
      unfolding tt using lex_then [OF a2 rendered_boundary [OF js(1)] lr] .
    moreover have "run (Val []) (ts0 @ toks_elems ?js @ [RBrack]) = Some (After (JArr ?js) [])"
      using f(2) st run_ArrStart [OF js(1), of "[]" "[RBrack]"] run_toks(2) [of ?js "[]" "[]" "[]"] js(1)
      by (simp add: run_append)
    ultimately show ?thesis using st by (simp add: JSON_parse_def parse_tokens_def)
  next
    assume "\<exists>v xs. st = After v [ArrF xs] \<and> olds = xs @ [v]"
    then obtain v xs where st: "st = After v [ArrF xs]" "olds = xs @ [v]" by blast
    have ne2: "\<not> (?a2 \<noteq> [] \<and> last ?a2 = CHR ''['')"
    proof
      assume "?a2 \<noteq> [] \<and> last ?a2 = CHR ''[''"
      then obtain a3 where a3: "?a2 = a3 @ ''[''"
        by (metis append_butlast_last_id)
      have "CHR 0x22 \<notin> set ''[''" "boundary ''[''" by (simp_all add: boundary_def numchar_def lower_def is_digit_def)
      then obtain t1 t2 where t: "lex a3 = Some t1" "lex ''['' = Some t2" "ts0 = t1 @ t2"
        using lex_prefix [of a3 "''[''" ts0] a2 a3 by auto
      have "t2 = [LBrack]" using t(2) by simp
      then obtain st1 where "run (Val []) t1 = Some st1" "step st1 LBrack = Some st"
        using f(2) t(3) by (auto simp: run_append split: option.splits)
      then show False using step_LBrack st(1) by blast
    qed
    have tt: "temp_text (trim content) newSwaps =
        ?a2 @ (CHR '','' # CHR 0x0A # ?rendered @ [CHR 0x0A, CHR '']''])"
      unfolding temp_text_def Let_def strip rendered using ne2 ends by simp
    have "lex (CHR '','' # CHR 0x0A # ?rendered @ [CHR 0x0A, CHR '']'']) =
        Some (Comma # toks_elems ?js @ [RBrack])"
      using lr by simp
    then have "lex (temp_text (trim content) newSwaps) =
        Some (ts0 @ Comma # toks_elems ?js @ [RBrack])"
      unfolding tt using lex_then [OF a2, of "CHR '','' # CHR 0x0A # ?rendered @ [CHR 0x0A, CHR '']'']"]
      by simp
    moreover have "run (Val []) (ts0 @ Comma # toks_elems ?js @ [RBrack]) =
        Some (After (JArr (olds @ ?js)) [])"
      using f(2) st run_toks(2) [of ?js "xs @ [v]" "[]" "[]"] js(1)
      by (simp add: run_append)
    ultimately show ?thesis by (simp add: JSON_parse_def parse_tokens_def)
  qed
qed

lemma trim_valid_not_empty:
  assumes "JSON_parse content = Some (JArr olds)"
  shows "trim content \<noteq> []" and "trim content = ''[]'' \<longrightarrow> olds = []"
proof -
  obtain ts0 st where f: "lex content = Some (ts0 @ [RBrack])" "run (Val []) ts0 = Some st"
    "(st = ArrStart [] \<and> olds = []) \<or> (\<exists>v xs. st = After v [ArrF xs] \<and> olds = xs @ [v])"
    using valid_array_file [OF assms] by blast
  obtain a1 where a1: "trim content = a1 @ '']''" "lex a1 = Some ts0"
    using trim_closing [OF f(1)] by blast
  show "trim content \<noteq> []" using a1 by simp
  show "trim content = ''[]'' \<longrightarrow> olds = []"
  proof
    assume "trim content = ''[]''"
    then have "a1 = ''[''" using a1(1) by simp
    then have "ts0 = [LBrack]" using a1(2) by simp
    then have "st = ArrStart []" using f(2) by simp
    then show "olds = []" using f(3) by auto
  qed
qed

lemma append_valid:
  assumes "output_file d = Some content" "JSON_parse content = Some (JArr olds)" "newSwaps \<noteq> []"
  shows "\<exists>d' content'. appendSwapsToFile newSwaps d = (True, d')
           \<and> output_file d' = Some content' \<and> progress_file d' = progress_file d
           \<and> JSON_parse content' = Some (JArr (olds @ map swap_json newSwaps))"
proof (cases "trim content = ''[]''")
  case True
  then have "olds = []" using trim_valid_not_empty(2) [OF assms(2)] by simp
  moreover have "JSON_parse (stringify_indent 0 (JArr (map swap_json newSwaps)))
      = Some (JArr (map swap_json newSwaps))"
    by (rule JSON_parse_stringify_indent) (simp add: wf_elems_swaps)
  ultimately have "appendSwapsToFile newSwaps d =
        (True, d\<lparr>output_file := Some (stringify_indent 0 (JArr (map swap_json newSwaps)))\<rparr>)
      \<and> JSON_parse (stringify_indent 0 (JArr (map swap_json newSwaps)))
        = Some (JArr (olds @ map swap_json newSwaps))"
    using assms True by (simp add: appendSwapsToFile_def del: stringify_indent.simps)
  then show ?thesis by auto
next
  case False
  have "trim content \<noteq> []" using trim_valid_not_empty(1) [OF assms(2)] .
  then have "appendSwapsToFile newSwaps d =
        (True, d\<lparr>output_file := Some (temp_text (trim content) newSwaps), temp_file := None\<rparr>)"
    using assms False temp_text_parse [OF assms(2,3)]
    by (simp add: appendSwapsToFile_def Let_def)
  then show ?thesis using temp_text_parse [OF assms(2,3)] by auto
qed

end
